theory Spec2Isabelle
  imports Main "HOL-Library.Word"
begin

text \<open>
  The line buffer of the Janeway console: the class \<^verbatim>\<open>LogList\<close>, which keeps the
  lines shown in the output box together with their indices, and the two methods of the
  main class that the buffer's behaviour rests on, \<^verbatim>\<open>scroll\<close> and
  \<^verbatim>\<open>extractLineInfo\<close>. Each method is a function from the state before the call to
  the state after it, or to the error it throws.
\<close>

section \<open>JavaScript strings\<close>

text \<open>
  A JavaScript string is a sequence of UTF-16 code units. The replacement character of
  \<^verbatim>\<open>sanitize\<close>, U+23CE, is one code unit, and the regular expressions of the
  program (which carry no \<^verbatim>\<open>u\<close> flag) match code unit by code unit.
\<close>

type_synonym jschar = "16 word"
type_synonym jsstring = "jschar list"

text \<open>An ASCII literal of the source, as code units.\<close>

definition js :: "string \<Rightarrow> jsstring" where
  "js s = map (\<lambda>c. of_nat (of_char c)) s"

definition LF :: jschar where
  "LF = 0x0A"

definition RETURN_SYMBOL :: jschar where
  "RETURN_SYMBOL = 0x23CE"

definition SPACE :: jschar where
  "SPACE = 0x20"

section \<open>LogList: sanitize\<close>

text \<open>
  \<^verbatim>\<open>str = str.toString(); str = str.replace(/\n/g, '\u23CE '); return str;\<close>

  The argument below is the string \<^verbatim>\<open>str.toString()\<close>. The global replace
  walks the string once and puts the two code units U+23CE, U+0020 in the place of every
  line feed.
\<close>

fun sanitize :: "jsstring \<Rightarrow> jsstring" where
  "sanitize [] = []"
| "sanitize (c # cs) =
     (if c = LF then RETURN_SYMBOL # SPACE # sanitize cs else c # sanitize cs)"

section \<open>LogList: the state\<close>

text \<open>
  Lines are objects: the list holds references to them, and \<^verbatim>\<open>line.index = ...\<close>
  writes into the object, wherever it is referenced from. So the lines live in a store
  (a map from references to their fields) and the list is an array of references.
  Of a line, the list code reads and writes \<^verbatim>\<open>index\<close>; \<^verbatim>\<open>content\<close> is the string
  \<^verbatim>\<open>line.toString()\<close>, and \<^verbatim>\<open>selected\<close> the selection flag of the data model.
\<close>

type_synonym ref = nat

record logline =
  index :: int
  content :: jsstring
  selected :: bool

text \<open>
  The box and the screen are widgets of the terminal library, and \<^verbatim>\<open>janeway\<close> is the
  main instance: the list code only calls them, so the state keeps the sequence of the
  calls made. \<^verbatim>\<open>Render\<close> is a call of the throttled \<^verbatim>\<open>render\<close> method.
\<close>

datatype call =
    SetLine int jsstring
  | InsertLine int jsstring
  | DeleteLine int
  | SetContent jsstring
  | ScrollAlong "bool option"
  | Render

text \<open>
  The exceptions of the language that the list code can run into. A method that throws
  has changed the list object up to the point where it throws: its result is the
  exception together with the state it leaves behind.
\<close>

datatype error = TypeError | RangeError

text \<open>
  \<^verbatim>\<open>list\<close>, \<^verbatim>\<open>selectedLine\<close>: the fields set by the constructor. An element of the
  array \<^verbatim>\<open>list\<close> is a line or, where the array has a hole, nothing (\<open>None\<close>): reading
  a hole gives \<^verbatim>\<open>undefined\<close>, as reading outside the array does.
  \<^verbatim>\<open>list_selectedLine\<close>: the property \<^verbatim>\<open>selectedLine\<close> of the array object
  \<^verbatim>\<open>this.list\<close> itself, which \<^verbatim>\<open>clearScreen\<close> reads.
  \<^verbatim>\<open>scrollDown\<close>: \<^verbatim>\<open>this.janeway.scrollDown\<close>.
  \<^verbatim>\<open>immediates\<close>: the callbacks \<^verbatim>\<open>deferAndRenderLine\<close> handed to
  \<^verbatim>\<open>setImmediate\<close> and not run yet, each with the line it closes over.
\<close>

record loglist =
  list :: "ref option list"
  list_selectedLine :: "ref option"
  selectedLine :: "ref option"
  heap :: "ref \<Rightarrow> logline"
  scrollDown :: bool
  calls :: "call list"
  immediates :: "ref list"

text \<open>The constructor: \<^verbatim>\<open>this.list = []; this.selectedLine = null;\<close>\<close>

definition LogList :: "(ref \<Rightarrow> logline) \<Rightarrow> bool \<Rightarrow> loglist" where
  "LogList h sd =
     \<lparr>list = [], list_selectedLine = None, selectedLine = None, heap = h,
      scrollDown = sd, calls = [], immediates = []\<rparr>"

text \<open>\<^verbatim>\<open>this.box.setLine(index, this.sanitize(str))\<close>\<close>

definition setLine :: "int \<Rightarrow> ref \<Rightarrow> loglist \<Rightarrow> loglist" where
  "setLine i line st = st\<lparr>calls := calls st @ [SetLine i (sanitize (content (heap st line)))]\<rparr>"

text \<open>\<^verbatim>\<open>this.box.insertLine(index, this.sanitize(str))\<close>\<close>

definition insertLine :: "int \<Rightarrow> ref \<Rightarrow> loglist \<Rightarrow> loglist" where
  "insertLine i line st =
     st\<lparr>calls := calls st @ [InsertLine i (sanitize (content (heap st line)))]\<rparr>"

text \<open>\<^verbatim>\<open>line.index = v\<close>\<close>

definition set_index :: "ref \<Rightarrow> int \<Rightarrow> (ref \<Rightarrow> logline) \<Rightarrow> (ref \<Rightarrow> logline)" where
  "set_index r v h = h(r := (h r)\<lparr>index := v\<rparr>)"

section \<open>LogList: pushLine\<close>

text \<open>
  \<^verbatim>\<open>length = this.list.push(line); line.index = length-1;\<close>
  Without \<^verbatim>\<open>defer\<close> the row is set at once and, if \<^verbatim>\<open>janeway.scrollDown\<close>,
  \<^verbatim>\<open>scrollAlong(false)\<close> is called; with \<^verbatim>\<open>defer\<close> the callback is queued.
\<close>

definition pushLine :: "ref \<Rightarrow> bool \<Rightarrow> loglist \<Rightarrow> loglist" where
  "pushLine line defer st =
     (let st1 = st\<lparr>list := list st @ [Some line]\<rparr>;
          len = int (length (list st1));
          st2 = st1\<lparr>heap := set_index line (len - 1) (heap st1)\<rparr>
      in if \<not> defer then
           (let st3 = setLine (index (heap st2 line)) line st2
            in if scrollDown st3 then st3\<lparr>calls := calls st3 @ [ScrollAlong (Some False)]\<rparr>
               else st3)
         else st2\<lparr>immediates := immediates st2 @ [line]\<rparr>)"


section \<open>LogList: insertAfter\<close>

text \<open>
  \<^verbatim>\<open>Array.prototype.splice(start, ...)\<close> counts a negative start from the end and clamps
  the start into \<open>0 .. length\<close>.
\<close>

definition splice_start :: "'a list \<Rightarrow> int \<Rightarrow> nat" where
  "splice_start xs i =
     (let len = int (length xs)
      in nat (if i < 0 then max (len + i) 0 else min i len))"

text \<open>\<^verbatim>\<open>a.splice(index, 0, value)\<close>\<close>

definition splice_in :: "'a option list \<Rightarrow> int \<Rightarrow> 'a \<Rightarrow> 'a option list" where
  "splice_in xs i v = take (splice_start xs i) xs @ [Some v] @ drop (splice_start xs i) xs"

text \<open>
  An array has at most \<open>2\<^sup>3\<^sup>2 - 1\<close> elements: setting its length to more throws a
  RangeError.
\<close>

definition MAX_LENGTH :: int where
  "MAX_LENGTH = 4294967295"

text \<open>
  \<^verbatim>\<open>Bound.Array.insert(this.list, index, line)\<close> is a function of the Protoblast
  library:
  \<^verbatim>\<open>if (this.length < (index-1)) { this.length = index-1; }\<close>
  \<^verbatim>\<open>this.splice(index, 0, value);\<close>
  A list that is too short is first made \<open>index - 1\<close> long, which leaves holes, and the
  value is put in with \<^verbatim>\<open>splice\<close> then. Setting the length throws the RangeError when
  \<open>index - 1\<close> is more than an array can have, and the array is as it was. When the
  length has been set to \<open>2\<^sup>3\<^sup>2 - 1\<close>, the array is full: \<^verbatim>\<open>splice\<close>, of which the start
  is the end of the array, moves no element, stores the value under the key \<open>2\<^sup>3\<^sup>2 - 1\<close>,
  which is not an index of an array and so adds no element, and throws the RangeError when
  it sets the new length. The result in both cases is the exception with the elements
  of the array as they are left.

  Apart from this case the lists of the model are not bounded in length: what the
  methods do with a list that is full already when they are called (\<open>2\<^sup>3\<^sup>2 - 1\<close>
  elements, holes counted) is not modelled.
\<close>

definition array_insert ::
  "'a option list \<Rightarrow> int \<Rightarrow> 'a \<Rightarrow> (error \<times> 'a option list) + 'a option list" where
  "array_insert xs i v =
     (if int (length xs) < i - 1 then
        (if MAX_LENGTH < i - 1 then Inl (RangeError, xs)
         else (let ys = xs @ replicate (nat (i - 1) - length xs) None
               in if i - 1 < MAX_LENGTH then Inr (splice_in ys i v)
                  else Inl (RangeError, ys)))
      else Inr (splice_in xs i v))"

text \<open>
  \<^verbatim>\<open>for (i = index+1; i < this.list.length; i++) { this.list[i].index += 1; }\<close>
  At a negative \<open>i\<close> and at a hole the element \<^verbatim>\<open>this.list[i]\<close> is \<^verbatim>\<open>undefined\<close>,
  and reading its property throws a TypeError. The result of the loop is the store, and
  when it throws, the store as the iterations before have left it.
\<close>

function shift_from ::
  "int \<Rightarrow> ref option list \<Rightarrow> (ref \<Rightarrow> logline) \<Rightarrow> (error \<times> (ref \<Rightarrow> logline)) + (ref \<Rightarrow> logline)" where
  "shift_from i xs h =
     (if i < int (length xs) then
        (if i < 0 then Inl (TypeError, h)
         else (case xs ! nat i of
                 None \<Rightarrow> Inl (TypeError, h)
               | Some r \<Rightarrow> shift_from (i + 1) xs (set_index r (index (h r) + 1) h)))
      else Inr h)"
  by pat_completeness auto
termination
  by (relation "measure (\<lambda>(i, xs, h). nat (int (length xs) - i))") auto

declare shift_from.simps [simp del]

text \<open>
  \<^verbatim>\<open>index = afterIndex + 1; Bound.Array.insert(this.list, index, line);\<close>
  \<^verbatim>\<open>line.index = index;\<close> the loop; \<^verbatim>\<open>this._insertLine(index, line);\<close>
  There is no \<^verbatim>\<open>try\<close> in the method: an exception of \<^verbatim>\<open>Array.insert\<close> or of the
  loop ends it, with the list and the lines as they are at that point.
\<close>

definition insertAfter :: "ref \<Rightarrow> int \<Rightarrow> loglist \<Rightarrow> (error \<times> loglist) + loglist" where
  "insertAfter line afterIndex st =
     (let i = afterIndex + 1
      in case array_insert (list st) i line of
           Inl (e, xs) \<Rightarrow> Inl (e, st\<lparr>list := xs\<rparr>)
         | Inr xs \<Rightarrow>
             (let st1 = st\<lparr>list := xs\<rparr>;
                  st2 = st1\<lparr>heap := set_index line i (heap st1)\<rparr>
              in case shift_from (i + 1) (list st2) (heap st2) of
                   Inl (e, h) \<Rightarrow> Inl (e, st2\<lparr>heap := h\<rparr>)
                 | Inr h \<Rightarrow> Inr (insertLine i line (st2\<lparr>heap := h\<rparr>))))"

section \<open>LogList: reIndex\<close>

text \<open>
  \<^verbatim>\<open>for (i = start; i < this.list.length; i++) { this.list[i].index = i; }\<close>
\<close>

function reindex_from ::
  "int \<Rightarrow> ref option list \<Rightarrow> (ref \<Rightarrow> logline) \<Rightarrow> (error \<times> (ref \<Rightarrow> logline)) + (ref \<Rightarrow> logline)" where
  "reindex_from i xs h =
     (if i < int (length xs) then
        (if i < 0 then Inl (TypeError, h)
         else (case xs ! nat i of
                 None \<Rightarrow> Inl (TypeError, h)
               | Some r \<Rightarrow> reindex_from (i + 1) xs (set_index r i h)))
      else Inr h)"
  by pat_completeness auto
termination
  by (relation "measure (\<lambda>(i, xs, h). nat (int (length xs) - i))") auto

declare reindex_from.simps [simp del]

text \<open>
  \<open>start\<close> is \<open>None\<close> when the argument is not a number (\<^verbatim>\<open>undefined\<close>, for one):
  \<^verbatim>\<open>if (typeof start !== 'number') { start = 0; }\<close>
\<close>

definition reIndex :: "int option \<Rightarrow> loglist \<Rightarrow> (error \<times> loglist) + loglist" where
  "reIndex start st =
     (let s = (case start of None \<Rightarrow> 0 | Some n \<Rightarrow> n)
      in case reindex_from s (list st) (heap st) of
           Inl (e, h) \<Rightarrow> Inl (e, st\<lparr>heap := h\<rparr>)
         | Inr h \<Rightarrow> Inr (st\<lparr>heap := h\<rparr>))"

section \<open>LogList: clearLines and removeLine\<close>

text \<open>
  \<^verbatim>\<open>this.list.splice(index, 1)\<close>: removes the element at the start position, if there is
  one.
\<close>

definition splice1 :: "'a list \<Rightarrow> int \<Rightarrow> 'a list" where
  "splice1 xs i = take (splice_start xs i) xs @ drop (Suc (splice_start xs i)) xs"

text \<open>
  The loop of \<^verbatim>\<open>clearLines\<close> over the reversed array:
  \<^verbatim>\<open>this.box.deleteLine(index); this.list.splice(index, 1);\<close>
\<close>

fun delete_each :: "int list \<Rightarrow> loglist \<Rightarrow> loglist" where
  "delete_each [] st = st"
| "delete_each (i # is) st =
     delete_each is (st\<lparr>calls := calls st @ [DeleteLine i], list := splice1 (list st) i\<rparr>)"

text \<open>
  \<^verbatim>\<open>Blast.Bound.Array.flashsort(indices)\<close> is the numeric sort of the Protoblast library,
  ascending. \<^verbatim>\<open>min = indices[0]\<close> is \<^verbatim>\<open>undefined\<close> for the empty array.
  When \<^verbatim>\<open>reIndex\<close> throws, the rows and lines are deleted already.
\<close>

definition clearLines :: "int list \<Rightarrow> loglist \<Rightarrow> (error \<times> loglist) + loglist" where
  "clearLines indices st =
     (let sorted_indices = sort indices;
          min = (case sorted_indices of [] \<Rightarrow> None | m # _ \<Rightarrow> Some m);
          st1 = delete_each (rev sorted_indices) st
      in reIndex min st1)"

text \<open>
  \<^verbatim>\<open>render\<close> is the throttled method; the state records the call.
\<close>

definition render :: "loglist \<Rightarrow> loglist" where
  "render st = st\<lparr>calls := calls st @ [Render]\<rparr>"

text \<open>
  \<^verbatim>\<open>line = this.list[indexToRemove]; if (line) { ... }\<close>: outside the array and at a
  hole the element is \<^verbatim>\<open>undefined\<close> and nothing happens. \<^verbatim>\<open>line.getAllIndices()\<close>
  is a method of the line classes, which are not among the sources: it is the parameter
  \<open>getAllIndices\<close>, the subtree traversal that yields the indices to delete.
  When \<^verbatim>\<open>clearLines\<close> throws, \<^verbatim>\<open>render\<close> is not called.
\<close>

definition removeLine ::
  "(loglist \<Rightarrow> ref \<Rightarrow> int list) \<Rightarrow> int \<Rightarrow> loglist \<Rightarrow> (error \<times> loglist) + loglist" where
  "removeLine getAllIndices indexToRemove st =
     (if 0 \<le> indexToRemove \<and> indexToRemove < int (length (list st)) then
        (case list st ! nat indexToRemove of
           None \<Rightarrow> Inr st
         | Some line \<Rightarrow>
             (let indices = getAllIndices st line
              in case clearLines indices st of
                   Inl (e, st1) \<Rightarrow> Inl (e, st1)
                 | Inr st1 \<Rightarrow> Inr (render st1)))
      else Inr st)"

section \<open>LogList: clearScreen\<close>

text \<open>
  Modelled from the spec: \<^verbatim>\<open>unselect\<close> is a method of the line classes, which are not
  among the sources; "unselects the currently selected line": its selected flag becomes
  false.
\<close>

definition unselect :: "ref \<Rightarrow> (ref \<Rightarrow> logline) \<Rightarrow> (ref \<Rightarrow> logline)" where
  "unselect r h = h(r := (h r)\<lparr>selected := False\<rparr>)"

text \<open>
  \<^verbatim>\<open>if (this.list.selectedLine) { this.list.selectedLine.unselect(); }\<close>
  \<^verbatim>\<open>this.list.length = 0; this.box.setContent(''); this.render();\<close>
  Setting the length empties the array object and keeps its other properties.
\<close>

definition clearScreen :: "loglist \<Rightarrow> loglist" where
  "clearScreen st =
     (let st1 = (case list_selectedLine st of
                   Some r \<Rightarrow> st\<lparr>heap := unselect r (heap st)\<rparr>
                 | None \<Rightarrow> st);
          st2 = st1\<lparr>list := []\<rparr>;
          st3 = st2\<lparr>calls := calls st2 @ [SetContent []]\<rparr>
      in render st3)"

section \<open>LogList: the index invariant and the reachable states\<close>

text \<open>Every position of the list holds a line, which carries this position as index.\<close>

definition index_inv :: "loglist \<Rightarrow> bool" where
  "index_inv st \<longleftrightarrow>
     (\<forall>i < length (list st).
        case list st ! i of None \<Rightarrow> False | Some r \<Rightarrow> index (heap st r) = int i)"



section \<open>Example lists\<close>

text \<open>
  Lists to run the methods on: the lines \<open>0\<close>, \<open>1\<close> and \<open>2\<close> pushed in this order onto
  a new list. In \<open>example_indices\<close>, line \<open>2\<close> is the only child of line \<open>1\<close>: the
  traversal of line \<open>1\<close> yields its own index and the index of its child, the traversal
  of any other line its own index.
\<close>

definition blank :: "ref \<Rightarrow> logline" where
  "blank = (\<lambda>_. \<lparr>index = 0, content = [], selected = False\<rparr>)"

definition two_lines :: loglist where
  "two_lines = pushLine 1 False (pushLine 0 False (LogList blank False))"

definition three_lines :: loglist where
  "three_lines = pushLine 2 False two_lines"

definition example_indices :: "loglist \<Rightarrow> ref \<Rightarrow> int list" where
  "example_indices st r =
     (if r = 1 then [index (heap st 1), index (heap st 2)] else [index (heap st r)])"


section \<open>Janeway: scroll\<close>

text \<open>
  \<^verbatim>\<open>if (direction == null) { direction = 1; }\<close>
  \<^verbatim>\<open>before = box.getScrollPerc(); box.scroll(direction); after = box.getScrollPerc();\<close>
  \<^verbatim>\<open>if (before == 0 && after == 0) { box.scroll(0 - direction); }\<close>

  The box is a widget of the terminal library: its state \<open>'b\<close> and its two methods are
  parameters. \<open>direction\<close> is \<open>None\<close> for \<^verbatim>\<open>null\<close> and \<^verbatim>\<open>undefined\<close>.
\<close>

definition scroll :: "('b \<Rightarrow> 'p::zero) \<Rightarrow> (int \<Rightarrow> 'b \<Rightarrow> 'b) \<Rightarrow> int option \<Rightarrow> 'b \<Rightarrow> 'b" where
  "scroll getScrollPerc box_scroll direction box =
     (let d = (case direction of None \<Rightarrow> 1 | Some n \<Rightarrow> n);
          before = getScrollPerc box;
          box1 = box_scroll d box;
          after = getScrollPerc box1
      in if before = 0 \<and> after = 0 then box_scroll (0 - d) box1 else box1)"

text \<open>
  A box to run \<open>scroll\<close> on: a viewport over \<open>rows\<close> rows of content, whose position
  stays within \<open>0 .. rows\<close>, and whose scroll percentage is the position relative to
  the number of rows, in whole percent.
\<close>

record viewport =
  rows :: int
  pos :: int

definition vp_scroll :: "int \<Rightarrow> viewport \<Rightarrow> viewport" where
  "vp_scroll n v = v\<lparr>pos := max 0 (min (rows v) (pos v + n))\<rparr>"

definition vp_getScrollPerc :: "viewport \<Rightarrow> int" where
  "vp_getScrollPerc v = (if rows v = 0 then 0 else (pos v * 100) div rows v)"

section \<open>Janeway: extractLineInfo\<close>

subsection \<open>String methods\<close>

text \<open>\<^verbatim>\<open>s.indexOf(pat)\<close>: the first position where \<open>pat\<close> starts, or \<open>-1\<close>.\<close>

fun indexOf_from :: "jsstring \<Rightarrow> jsstring \<Rightarrow> int \<Rightarrow> int" where
  "indexOf_from pat [] n = (if pat = [] then n else - 1)"
| "indexOf_from pat (c # cs) n =
     (if take (length pat) (c # cs) = pat then n else indexOf_from pat cs (n + 1))"

definition indexOf :: "jsstring \<Rightarrow> jsstring \<Rightarrow> int" where
  "indexOf s pat = indexOf_from pat s 0"

text \<open>
  \<^verbatim>\<open>s.slice(start, end)\<close>: a negative bound counts from the end, and both bounds are
  clamped into \<open>0 .. length\<close>.
\<close>

definition slice_bound :: "jsstring \<Rightarrow> int \<Rightarrow> nat" where
  "slice_bound s i =
     (let len = int (length s)
      in nat (if i < 0 then max (len + i) 0 else min i len))"

definition slice :: "jsstring \<Rightarrow> int \<Rightarrow> int \<Rightarrow> jsstring" where
  "slice s start end = take (slice_bound s end - slice_bound s start) (drop (slice_bound s start) s)"

text \<open>\<^verbatim>\<open>s.split(sep)\<close> for a separator of one code unit: never the empty array.\<close>

fun split :: "jschar \<Rightarrow> jsstring \<Rightarrow> jsstring list" where
  "split sep [] = [[]]"
| "split sep (c # cs) =
     (if c = sep then [] # split sep cs
      else (case split sep cs of
              [] \<Rightarrow> [[c]]
            | p # ps \<Rightarrow> (c # p) # ps))"

text \<open>\<^verbatim>\<open>a.pop()\<close>, the value returned: the last element, \<^verbatim>\<open>undefined\<close> for no element.\<close>

definition pop :: "'a list \<Rightarrow> 'a option" where
  "pop xs = (if xs = [] then None else Some (last xs))"

text \<open>\<^verbatim>\<open>a[k]\<close> of an array whose elements may be \<^verbatim>\<open>undefined\<close> (\<open>None\<close>).\<close>

definition elem :: "'a option list \<Rightarrow> nat \<Rightarrow> 'a option" where
  "elem a k = (if k < length a then a ! k else None)"

subsection \<open>The two regular expressions\<close>

text \<open>
  Both patterns are sequences of literal code units and of capture groups around a
  starred character class, lazy \<^verbatim>\<open>(.*?)\<close> or greedy \<^verbatim>\<open>(\d*)\<close>. \<^verbatim>\<open>.\<close> is any code
  unit but the four line terminators, \<^verbatim>\<open>\d\<close> is an ASCII digit.
\<close>

datatype cls = AnyChar | Digit

datatype atom = Lit jschar | LazyGroup cls | GreedyGroup cls

fun in_cls :: "cls \<Rightarrow> jschar \<Rightarrow> bool" where
  "in_cls AnyChar c = (c \<noteq> 0x0A \<and> c \<noteq> 0x0D \<and> c \<noteq> 0x2028 \<and> c \<noteq> 0x2029)"
| "in_cls Digit c = (0x30 \<le> c \<and> c \<le> 0x39)"

text \<open>
  The backtracking matcher of the language, on these patterns: \<open>match_atoms ps s\<close> matches
  the pattern at the start of \<open>s\<close> and gives the captures and the input left over.
  A lazy group first tries the rest of the pattern and takes one more code unit only when
  that fails; a greedy group first takes one more code unit and tries the rest of the
  pattern when that fails. The first match found in this order is the result.
\<close>

fun match_atoms :: "atom list \<Rightarrow> jsstring \<Rightarrow> (jsstring list \<times> jsstring) option"
  and lazy_star :: "cls \<Rightarrow> atom list \<Rightarrow> jsstring \<Rightarrow> jsstring \<Rightarrow> (jsstring list \<times> jsstring) option"
  and greedy_star :: "cls \<Rightarrow> atom list \<Rightarrow> jsstring \<Rightarrow> jsstring \<Rightarrow> (jsstring list \<times> jsstring) option"
where
  "match_atoms [] s = Some ([], s)"
| "match_atoms (Lit c # ps) s =
     (case s of [] \<Rightarrow> None | x # xs \<Rightarrow> if x = c then match_atoms ps xs else None)"
| "match_atoms (LazyGroup k # ps) s = lazy_star k ps [] s"
| "match_atoms (GreedyGroup k # ps) s = greedy_star k ps [] s"
| "lazy_star k ps acc s =
     (case match_atoms ps s of
        Some (caps, rest) \<Rightarrow> Some (rev acc # caps, rest)
      | None \<Rightarrow>
          (case s of
             [] \<Rightarrow> None
           | x # xs \<Rightarrow> if in_cls k x then lazy_star k ps (x # acc) xs else None))"
| "greedy_star k ps acc s =
     (case (case s of
              [] \<Rightarrow> None
            | x # xs \<Rightarrow> if in_cls k x then greedy_star k ps (x # acc) xs else None) of
        Some r \<Rightarrow> Some r
      | None \<Rightarrow>
          (case match_atoms ps s of
             Some (caps, rest) \<Rightarrow> Some (rev acc # caps, rest)
           | None \<Rightarrow> None))"

declare lazy_star.simps [simp del] greedy_star.simps [simp del]

text \<open>
  What a match means: \<open>fill ps caps\<close> is the text that the pattern matches when its
  groups capture \<open>caps\<close>, in order, and \<open>caps_in ps caps\<close> says that there is one
  capture for every group, made of code units of the group's class.
\<close>

fun fill :: "atom list \<Rightarrow> jsstring list \<Rightarrow> jsstring" where
  "fill [] caps = []"
| "fill (Lit c # ps) caps = c # fill ps caps"
| "fill (LazyGroup k # ps) caps = (case caps of [] \<Rightarrow> fill ps [] | c # cs \<Rightarrow> c @ fill ps cs)"
| "fill (GreedyGroup k # ps) caps = (case caps of [] \<Rightarrow> fill ps [] | c # cs \<Rightarrow> c @ fill ps cs)"

fun caps_in :: "atom list \<Rightarrow> jsstring list \<Rightarrow> bool" where
  "caps_in [] caps = (caps = [])"
| "caps_in (Lit c # ps) caps = caps_in ps caps"
| "caps_in (LazyGroup k # ps) caps =
     (case caps of [] \<Rightarrow> False | c # cs \<Rightarrow> list_all (in_cls k) c \<and> caps_in ps cs)"
| "caps_in (GreedyGroup k # ps) caps =
     (case caps of [] \<Rightarrow> False | c # cs \<Rightarrow> list_all (in_cls k) c \<and> caps_in ps cs)"

text \<open>
  The array that \<^verbatim>\<open>exec\<close> returns for a match: the text matched, then the captures.
\<close>

definition match_array :: "jsstring \<Rightarrow> jsstring list \<times> jsstring \<Rightarrow> jsstring option list" where
  "match_array s m = map Some (take (length s - length (snd m)) s # fst m)"

text \<open>A pattern that begins with \<^verbatim>\<open>^\<close> matches at the start of the input only.\<close>

definition exec_anchored :: "atom list \<Rightarrow> jsstring \<Rightarrow> jsstring option list option" where
  "exec_anchored ps s = map_option (match_array s) (match_atoms ps s)"

text \<open>Otherwise \<^verbatim>\<open>exec\<close> tries every start position from the left.\<close>

fun exec :: "atom list \<Rightarrow> jsstring \<Rightarrow> jsstring option list option" where
  "exec ps [] = map_option (match_array []) (match_atoms ps [])"
| "exec ps (c # cs) =
     (case match_atoms ps (c # cs) of
        Some m \<Rightarrow> Some (match_array (c # cs) m)
      | None \<Rightarrow> exec ps cs)"

text \<open>\<^verbatim>\<open>/^ (.*?) \((.*?):(\d*):(\d*)\)/\<close>\<close>

definition strict_pattern :: "atom list" where
  "strict_pattern =
     [Lit 0x20, LazyGroup AnyChar, Lit 0x20, Lit 0x28, LazyGroup AnyChar, Lit 0x3A,
      GreedyGroup Digit, Lit 0x3A, GreedyGroup Digit, Lit 0x29]"

text \<open>\<^verbatim>\<open>/(.*?):(\d*):(\d*)/\<close>\<close>

definition loose_pattern :: "atom list" where
  "loose_pattern = [LazyGroup AnyChar, Lit 0x3A, GreedyGroup Digit, Lit 0x3A, GreedyGroup Digit]"

subsection \<open>extractLineInfo\<close>

text \<open>
  The object returned; a field is \<open>None\<close> when its value is \<^verbatim>\<open>undefined\<close>.
  \<open>file_\<close> is the field \<^verbatim>\<open>file\<close>.
\<close>

record lineinfo =
  name :: "jsstring option"
  path :: "jsstring option"
  file_ :: "jsstring option"
  line :: "jsstring option"
  char :: "jsstring option"

text \<open>
  \<^verbatim>\<open>index = caller_line.indexOf('at ');\<close>
  \<^verbatim>\<open>clean = caller_line.slice(index+2, caller_line.length);\<close>
\<close>

definition clean_line :: "jsstring \<Rightarrow> jsstring" where
  "clean_line caller_line =
     (let index = indexOf caller_line (js ''at '')
      in slice caller_line (index + 2) (int (length caller_line)))"

text \<open>
  \<^verbatim>\<open>result = /^ .../.exec(clean);\<close>
  \<^verbatim>\<open>if (!result) { temp = /(.*?):(\d*):(\d*)/.exec(clean);\<close>
  \<^verbatim>\<open>  if (!temp) { temp = ['unknown', 'unknown', 'unknown', 'unknown']; }\<close>
  \<^verbatim>\<open>  result = ['', 'anonymous', temp[1], temp[2], temp[3]]; }\<close>
\<close>

definition line_result :: "jsstring \<Rightarrow> jsstring option list" where
  "line_result clean =
     (case exec_anchored strict_pattern clean of
        Some result \<Rightarrow> result
      | None \<Rightarrow>
          (let temp = (case exec loose_pattern clean of
                         Some t \<Rightarrow> t
                       | None \<Rightarrow> [Some (js ''unknown''), Some (js ''unknown''),
                                   Some (js ''unknown''), Some (js ''unknown'')])
           in [Some [], Some (js ''anonymous''), elem temp 1, elem temp 2, elem temp 3]))"

text \<open>
  \<^verbatim>\<open>return {name: result[1], path: result[2], file: result[2].split('/').pop(),\<close>
  \<^verbatim>\<open>        line: result[3], char: result[4]};\<close>
  Calling \<^verbatim>\<open>split\<close> on \<^verbatim>\<open>undefined\<close> throws a TypeError.
\<close>

definition extractLineInfo :: "jsstring \<Rightarrow> error + lineinfo" where
  "extractLineInfo caller_line =
     (let result = line_result (clean_line caller_line)
      in case elem result 2 of
           None \<Rightarrow> Inl TypeError
         | Some p \<Rightarrow>
             Inr \<lparr>name = elem result 1, path = elem result 2, file_ = pop (split 0x2F p),
                  line = elem result 3, char = elem result 4\<rparr>)"

section \<open>The two loops over the list\<close>

lemma set_index_other: "r \<noteq> r' \<Longrightarrow> set_index r v h r' = h r'"
  by (simp add: set_index_def)

lemma set_index_same: "index (set_index r v h r) = v"
  by (simp add: set_index_def)

lemma drop_nat_step:
  "0 \<le> i \<Longrightarrow> i < int (length xs) \<Longrightarrow> drop (nat i) xs = xs ! nat i # drop (nat (i + 1)) xs"
  by (simp add: Cons_nth_drop_Suc nat_add_distrib)

lemma nth_notin_drop_next:
  assumes "distinct xs" "0 \<le> i" "i < int (length xs)"
  shows "xs ! nat i \<notin> set (drop (nat (i + 1)) xs)"
proof -
  from assms(1) have "distinct (drop (nat i) xs)" by simp
  with assms(2,3) show ?thesis by (simp add: drop_nat_step)
qed

lemma reindex_from_neg: "i < 0 \<Longrightarrow> reindex_from i xs h = Inl (TypeError, h)"
  by (subst reindex_from.simps) simp

lemma reindex_from_hole:
  "0 \<le> i \<Longrightarrow> i < int (length xs) \<Longrightarrow> xs ! nat i = None \<Longrightarrow>
   reindex_from i xs h = Inl (TypeError, h)"
  by (subst reindex_from.simps) simp

lemma reindex_from_step:
  "0 \<le> i \<Longrightarrow> i < int (length xs) \<Longrightarrow> xs ! nat i = Some r \<Longrightarrow>
   reindex_from i xs h = reindex_from (i + 1) xs (set_index r i h)"
  by (subst reindex_from.simps) simp

lemma reindex_from_stop: "\<not> i < int (length xs) \<Longrightarrow> reindex_from i xs h = Inr h"
  by (subst reindex_from.simps) simp

lemma reindex_from_total:
  "0 \<le> i \<Longrightarrow> None \<notin> set (drop (nat i) xs) \<Longrightarrow> \<exists>h'. reindex_from i xs h = Inr h'"
proof (induction i xs h rule: reindex_from.induct)
  case (1 i xs h)
  show ?case
  proof (cases "i < int (length xs)")
    case True
    with "1.prems" obtain r where r: "xs ! nat i = Some r"
      and rest: "None \<notin> set (drop (nat (i + 1)) xs)"
      by (cases "xs ! nat i") (auto simp: drop_nat_step)
    with "1.IH"[of r] True "1.prems"(1)
    have "\<exists>h'. reindex_from (i + 1) xs (set_index r i h) = Inr h'"
      by simp
    with True "1.prems"(1) r show ?thesis by (subst reindex_from_step) simp_all
  next
    case False
    then show ?thesis by (simp add: reindex_from_stop)
  qed
qed

lemma reindex_from_Inr_step:
  assumes "0 \<le> i" "i < int (length xs)" "reindex_from i xs h = Inr h'"
  obtains r where "xs ! nat i = Some r" "reindex_from (i + 1) xs (set_index r i h) = Inr h'"
proof (cases "xs ! nat i")
  case None
  with assms show ?thesis by (simp add: reindex_from_hole)
next
  case (Some r)
  with assms have "reindex_from (i + 1) xs (set_index r i h) = Inr h'"
    by (simp add: reindex_from_step)
  with Some that show ?thesis by blast
qed

lemma reindex_from_frame:
  "0 \<le> i \<Longrightarrow> reindex_from i xs h = Inr h' \<Longrightarrow> Some r \<notin> set (drop (nat i) xs) \<Longrightarrow> h' r = h r"
proof (induction i xs h rule: reindex_from.induct)
  case (1 i xs h)
  show ?case
  proof (cases "i < int (length xs)")
    case True
    from "1.prems"(1) True "1.prems"(2)
    obtain q where q: "xs ! nat i = Some q"
      and run: "reindex_from (i + 1) xs (set_index q i h) = Inr h'"
      by (rule reindex_from_Inr_step)
    from "1.prems"(3) True "1.prems"(1) q
    have ne: "q \<noteq> r" and rest: "Some r \<notin> set (drop (nat (i + 1)) xs)"
      by (auto simp: drop_nat_step)
    from "1.IH"[OF True _ q _ run rest] "1.prems"(1)
    have "h' r = set_index q i h r" by simp
    with ne show ?thesis by (simp add: set_index_other)
  next
    case False
    with 1 show ?thesis by (simp add: reindex_from_stop)
  qed
qed

lemma reindex_from_effect:
  "0 \<le> i \<Longrightarrow> reindex_from i xs h = Inr h' \<Longrightarrow> distinct xs \<Longrightarrow>
   nat i \<le> j \<Longrightarrow> j < length xs \<Longrightarrow> xs ! j = Some r \<Longrightarrow> index (h' r) = int j"
proof (induction i xs h arbitrary: j r rule: reindex_from.induct)
  case (1 i xs h)
  from "1.prems" have lt: "i < int (length xs)" by linarith
  from "1.prems"(1) lt "1.prems"(2)
  obtain q where q: "xs ! nat i = Some q"
    and run: "reindex_from (i + 1) xs (set_index q i h) = Inr h'"
    by (rule reindex_from_Inr_step)
  show ?case
  proof (cases "j = nat i")
    case True
    with q "1.prems"(6) have qr: "q = r" by simp
    have "xs ! nat i \<notin> set (drop (nat (i + 1)) xs)"
      using \<open>distinct xs\<close> "1.prems"(1) lt by (rule nth_notin_drop_next)
    with q have "Some q \<notin> set (drop (nat (i + 1)) xs)" by simp
    with run "1.prems"(1)
    have "h' q = set_index q i h q"
      by (intro reindex_from_frame[of "i + 1" xs]) simp_all
    with True "1.prems"(1) qr show ?thesis by (simp add: set_index_same)
  next
    case False
    with "1.prems" have "nat (i + 1) \<le> j" by linarith
    from "1.IH"[OF lt _ q _ run \<open>distinct xs\<close> this "1.prems"(5,6)] "1.prems"(1)
    show ?thesis by simp
  qed
qed

lemma reindex_from_id:
  "0 \<le> i \<Longrightarrow>
   \<forall>j < length xs. nat i \<le> j \<longrightarrow> (\<exists>r. xs ! j = Some r \<and> index (h r) = int j) \<Longrightarrow>
   reindex_from i xs h = Inr h"
proof (induction i xs h rule: reindex_from.induct)
  case (1 i xs h)
  show ?case
  proof (cases "i < int (length xs)")
    case True
    with "1.prems" obtain r where r: "xs ! nat i = Some r" and ir: "index (h r) = i"
      by (metis nat_less_iff order_refl int_nat_eq)
    then have same: "set_index r i h = h"
      by (auto simp: set_index_def)
    from "1.IH"[OF True _ r] "1.prems" same
    have "reindex_from (i + 1) xs h = Inr h" by simp
    with same have "reindex_from (i + 1) xs (set_index r i h) = Inr h" by simp
    with True "1.prems"(1) r show ?thesis by (simp add: reindex_from_step)
  next
    case False
    then show ?thesis by (simp add: reindex_from_stop)
  qed
qed

lemma shift_from_neg: "i < 0 \<Longrightarrow> shift_from i xs h = Inl (TypeError, h)"
  by (subst shift_from.simps) simp

lemma shift_from_hole:
  "0 \<le> i \<Longrightarrow> i < int (length xs) \<Longrightarrow> xs ! nat i = None \<Longrightarrow>
   shift_from i xs h = Inl (TypeError, h)"
  by (subst shift_from.simps) simp

lemma shift_from_step:
  "0 \<le> i \<Longrightarrow> i < int (length xs) \<Longrightarrow> xs ! nat i = Some r \<Longrightarrow>
   shift_from i xs h = shift_from (i + 1) xs (set_index r (index (h r) + 1) h)"
  by (subst shift_from.simps) simp

lemma shift_from_stop: "\<not> i < int (length xs) \<Longrightarrow> shift_from i xs h = Inr h"
  by (subst shift_from.simps) simp

lemma shift_from_total:
  "0 \<le> i \<Longrightarrow> None \<notin> set (drop (nat i) xs) \<Longrightarrow> \<exists>h'. shift_from i xs h = Inr h'"
proof (induction i xs h rule: shift_from.induct)
  case (1 i xs h)
  show ?case
  proof (cases "i < int (length xs)")
    case True
    with "1.prems" obtain r where r: "xs ! nat i = Some r"
      and rest: "None \<notin> set (drop (nat (i + 1)) xs)"
      by (cases "xs ! nat i") (auto simp: drop_nat_step)
    with "1.IH"[of r] True "1.prems"(1)
    have "\<exists>h'. shift_from (i + 1) xs (set_index r (index (h r) + 1) h) = Inr h'"
      by simp
    with True "1.prems"(1) r show ?thesis by (subst shift_from_step) simp_all
  next
    case False
    then show ?thesis by (simp add: shift_from_stop)
  qed
qed

lemma shift_from_Inr_step:
  assumes "0 \<le> i" "i < int (length xs)" "shift_from i xs h = Inr h'"
  obtains r where "xs ! nat i = Some r"
    "shift_from (i + 1) xs (set_index r (index (h r) + 1) h) = Inr h'"
proof (cases "xs ! nat i")
  case None
  with assms show ?thesis by (simp add: shift_from_hole)
next
  case (Some r)
  with assms have "shift_from (i + 1) xs (set_index r (index (h r) + 1) h) = Inr h'"
    by (simp add: shift_from_step)
  with Some that show ?thesis by blast
qed

lemma shift_from_frame:
  "0 \<le> i \<Longrightarrow> shift_from i xs h = Inr h' \<Longrightarrow> Some r \<notin> set (drop (nat i) xs) \<Longrightarrow> h' r = h r"
proof (induction i xs h rule: shift_from.induct)
  case (1 i xs h)
  show ?case
  proof (cases "i < int (length xs)")
    case True
    from "1.prems"(1) True "1.prems"(2)
    obtain q where q: "xs ! nat i = Some q"
      and run: "shift_from (i + 1) xs (set_index q (index (h q) + 1) h) = Inr h'"
      by (rule shift_from_Inr_step)
    from "1.prems"(3) True "1.prems"(1) q
    have ne: "q \<noteq> r" and rest: "Some r \<notin> set (drop (nat (i + 1)) xs)"
      by (auto simp: drop_nat_step)
    from "1.IH"[OF True _ q _ run rest] "1.prems"(1)
    have "h' r = set_index q (index (h q) + 1) h r" by simp
    with ne show ?thesis by (simp add: set_index_other)
  next
    case False
    with 1 show ?thesis by (simp add: shift_from_stop)
  qed
qed

lemma shift_from_effect:
  "0 \<le> i \<Longrightarrow> shift_from i xs h = Inr h' \<Longrightarrow> distinct xs \<Longrightarrow>
   nat i \<le> j \<Longrightarrow> j < length xs \<Longrightarrow> xs ! j = Some r \<Longrightarrow> index (h' r) = index (h r) + 1"
proof (induction i xs h arbitrary: j r rule: shift_from.induct)
  case (1 i xs h)
  from "1.prems" have lt: "i < int (length xs)" by linarith
  from "1.prems"(1) lt "1.prems"(2)
  obtain q where q: "xs ! nat i = Some q"
    and run: "shift_from (i + 1) xs (set_index q (index (h q) + 1) h) = Inr h'"
    by (rule shift_from_Inr_step)
  let ?h1 = "set_index q (index (h q) + 1) h"
  show ?case
  proof (cases "j = nat i")
    case True
    with q "1.prems"(6) have qr: "q = r" by simp
    have "xs ! nat i \<notin> set (drop (nat (i + 1)) xs)"
      using \<open>distinct xs\<close> "1.prems"(1) lt by (rule nth_notin_drop_next)
    with q have "Some q \<notin> set (drop (nat (i + 1)) xs)" by simp
    with run "1.prems"(1)
    have "h' q = ?h1 q"
      by (intro shift_from_frame[of "i + 1" xs]) simp_all
    with True qr show ?thesis by (simp add: set_index_same)
  next
    case False
    with "1.prems" have le: "nat (i + 1) \<le> j" by linarith
    from False "1.prems"(1,3,5) lt have "xs ! j \<noteq> xs ! nat i"
      by (simp add: nth_eq_iff_index_eq)
    with q "1.prems"(6) have "r \<noteq> q" by auto
    then have same: "index (?h1 r) = index (h r)"
      by (simp add: set_index_def)
    from "1.IH"[OF lt _ q _ run \<open>distinct xs\<close> le "1.prems"(5,6)] "1.prems"(1)
    have "index (h' r) = index (?h1 r) + 1" by simp
    with same show ?thesis by simp
  qed
qed
section \<open>The index invariant\<close>

lemma index_inv_iff:
  "index_inv st \<longleftrightarrow>
     (\<forall>i < length (list st). \<exists>r. list st ! i = Some r \<and> index (heap st r) = int i)"
  by (auto simp: index_inv_def split: option.splits)

lemma index_inv_nth:
  "index_inv st \<Longrightarrow> i < length (list st) \<Longrightarrow>
   \<exists>r. list st ! i = Some r \<and> index (heap st r) = int i"
  by (simp add: index_inv_iff)

lemma index_inv_no_hole:
  assumes "index_inv st"
  shows "None \<notin> set (list st)"
proof
  assume "None \<in> set (list st)"
  then obtain i where "i < length (list st)" "list st ! i = None"
    by (auto simp: in_set_conv_nth)
  with index_inv_nth[OF assms, of i] show False by auto
qed

lemma index_inv_distinct:
  assumes "index_inv st"
  shows "distinct (list st)"
proof -
  have "i = j" if "i < length (list st)" "j < length (list st)" "list st ! i = list st ! j"
    for i j
  proof -
    from index_inv_nth[OF assms that(1)] obtain r
      where r: "list st ! i = Some r" "index (heap st r) = int i" by blast
    from index_inv_nth[OF assms that(2)] obtain q
      where q: "list st ! j = Some q" "index (heap st q) = int j" by blast
    from r(1) q(1) that(3) have "r = q" by simp
    with r(2) q(2) show ?thesis by (metis of_nat_eq_iff)
  qed
  then show ?thesis by (auto simp: distinct_conv_nth)
qed

lemma index_inv_new: "index_inv (LogList h sd)"
  by (simp add: index_inv_iff LogList_def)

lemma pushLine_list: "list (pushLine ln defer st) = list st @ [Some ln]"
  by (simp add: pushLine_def Let_def setLine_def)

lemma pushLine_heap:
  "heap (pushLine ln defer st) = set_index ln (int (length (list st))) (heap st)"
  by (simp add: pushLine_def Let_def setLine_def)

lemma index_inv_pushLine:
  assumes "index_inv st" "Some ln \<notin> set (list st)"
  shows "index_inv (pushLine ln defer st)"
proof -
  have "\<exists>r. list (pushLine ln defer st) ! i = Some r \<and>
      index (heap (pushLine ln defer st) r) = int i"
    if "i < length (list (pushLine ln defer st))" for i
  proof (cases "i < length (list st)")
    case True
    from index_inv_nth[OF assms(1) True] obtain r
      where r: "list st ! i = Some r" "index (heap st r) = int i" by blast
    from True assms(2) r(1) have "r \<noteq> ln" by (metis nth_mem)
    with True r show ?thesis
      by (simp add: pushLine_list pushLine_heap nth_append set_index_def)
  next
    case False
    with that have "i = length (list st)" by (simp add: pushLine_list)
    then show ?thesis by (simp add: pushLine_list pushLine_heap set_index_def)
  qed
  then show ?thesis by (simp add: index_inv_iff)
qed



subsection \<open>The example lists\<close>

lemma two_lines_list: "list two_lines = [Some 0, Some 1]"
  by (simp add: two_lines_def pushLine_list LogList_def)

lemma two_lines_heap:
  "heap two_lines = set_index 1 1 (set_index 0 0 blank)"
  by (simp add: two_lines_def pushLine_heap pushLine_list) (simp add: LogList_def)

lemma two_lines_inv: "index_inv two_lines"
proof -
  have "index_inv (pushLine 0 False (LogList blank False))"
    by (rule index_inv_pushLine) (simp_all add: index_inv_new, simp add: LogList_def)
  then show "index_inv two_lines" unfolding two_lines_def
    by (rule index_inv_pushLine) (simp add: pushLine_list LogList_def)
qed

lemma three_lines_list: "list three_lines = [Some 0, Some 1, Some 2]"
  by (simp add: three_lines_def pushLine_list two_lines_list)

lemma three_lines_heap:
  "heap three_lines = set_index 2 2 (set_index 1 1 (set_index 0 0 blank))"
  by (simp add: three_lines_def pushLine_heap two_lines_list two_lines_heap)

lemma three_lines_inv: "index_inv three_lines"
  unfolding three_lines_def
  by (rule index_inv_pushLine) (simp_all add: two_lines_inv two_lines_list)

section \<open>insertAfter at an index of the list\<close>

lemma splice_start_in: "0 \<le> i \<Longrightarrow> i \<le> int (length xs) \<Longrightarrow> splice_start xs i = nat i"
  by (simp add: splice_start_def Let_def min_def)

lemma array_insert_in:
  "i - 1 \<le> int (length xs) \<Longrightarrow> array_insert xs i v = Inr (splice_in xs i v)"
  by (simp add: array_insert_def)

lemma shift_from_content:
  "shift_from i xs h = Inr h' \<Longrightarrow> content (h' r) = content (h r)"
proof (induction i xs h rule: shift_from.induct)
  case (1 i xs h)
  show ?case
  proof (cases "i < int (length xs)")
    case True
    show ?thesis
    proof (cases "i < 0")
      case True
      with "1.prems" show ?thesis by (simp add: shift_from_neg)
    next
      case False
      then have i0: "0 \<le> i" by simp
      from i0 True "1.prems"
      obtain q where q: "xs ! nat i = Some q"
        and run: "shift_from (i + 1) xs (set_index q (index (h q) + 1) h) = Inr h'"
        by (rule shift_from_Inr_step)
      from "1.IH"[OF True False q run]
      have "content (h' r) = content (set_index q (index (h q) + 1) h r)" .
      then show ?thesis by (simp add: set_index_def)
    qed
  next
    case False
    with 1 show ?thesis by (simp add: shift_from_stop)
  qed
qed

lemma insertAfter_unfold:
  "array_insert (list st) (k + 1) ln = Inr ys \<Longrightarrow>
   insertAfter ln k st =
     (case shift_from (k + 2) ys (set_index ln (k + 1) (heap st)) of
        Inl (e, h) \<Rightarrow> Inl (e, st\<lparr>list := ys, heap := h\<rparr>)
      | Inr h \<Rightarrow>
          Inr (st\<lparr>list := ys, heap := h,
                  calls := calls st @ [InsertLine (k + 1) (sanitize (content (h ln)))]\<rparr>))"
  by (simp add: insertAfter_def Let_def insertLine_def add.commute add.left_commute
      split: sum.splits prod.splits)

lemma insertAfter_valid:
  assumes inv: "index_inv st" and fresh: "Some ln \<notin> set (list st)"
    and k0: "- 1 \<le> k" and kN: "k < int (length (list st))"
  shows "\<exists>st'. insertAfter ln k st = Inr st' \<and>
    list st' = take (nat (k + 1)) (list st) @ Some ln # drop (nat (k + 1)) (list st) \<and>
    index (heap st' ln) = k + 1 \<and>
    (\<forall>r. Some r \<in> set (list st) \<longrightarrow> k < index (heap st r) \<longrightarrow>
        index (heap st' r) = index (heap st r) + 1) \<and>
    (\<forall>r. Some r \<in> set (list st) \<longrightarrow> index (heap st r) \<le> k \<longrightarrow> heap st' r = heap st r) \<and>
    calls st' = calls st @ [InsertLine (k + 1) (sanitize (content (heap st ln)))] \<and>
    index_inv st'"
proof -
  define xs where "xs = list st"
  define n where "n = nat (k + 1)"
  define ys where "ys = take n xs @ Some ln # drop n xs"
  define h2 where "h2 = set_index ln (k + 1) (heap st)"
  from k0 kN have n_le: "n \<le> length xs" and n_k: "int n = k + 1"
    by (simp_all add: n_def xs_def)
  have dxs: "distinct xs" using inv by (simp add: xs_def index_inv_distinct)
  have no_hole: "None \<notin> set xs" using inv by (simp add: xs_def index_inv_no_hole)
  have idx: "index (heap st r) = int i" if "i < length xs" "xs ! i = Some r" for i r
    using index_inv_nth[OF inv, of i] that by (auto simp: xs_def)
  have ins: "array_insert (list st) (k + 1) ln = Inr ys"
    using k0 kN by (simp add: array_insert_in splice_in_def splice_start_in ys_def n_def xs_def)
  have disj: "set (take n xs) \<inter> set (drop n xs) = {}"
    using dxs by (rule set_take_disj_set_drop_if_distinct) simp
  have ln_take: "Some ln \<notin> set (take n xs)" and ln_drop: "Some ln \<notin> set (drop n xs)"
    using fresh by (auto simp: xs_def dest: in_set_takeD in_set_dropD)
  have dys: "distinct ys"
    using dxs disj ln_take ln_drop by (simp add: ys_def)
  have len_ys: "length ys = length xs + 1"
    using n_le by (simp add: ys_def)
  have drop_ys: "drop (nat (k + 2)) ys = drop n xs"
  proof -
    from k0 have "nat (k + 2) = Suc n" by (simp add: n_def)
    with n_le show ?thesis by (simp add: ys_def)
  qed
  from no_hole have "None \<notin> set (drop n xs)" by (auto dest: in_set_dropD)
  with k0 obtain h' where run: "shift_from (k + 2) ys h2 = Inr h'"
    using shift_from_total[of "k + 2" ys h2] by (auto simp: drop_ys)
  have frame: "h' r = h2 r" if "Some r \<notin> set (drop n xs)" for r
    using shift_from_frame[OF _ run, of r] k0 that by (simp add: drop_ys)
  have h2_other: "h2 r = heap st r" if "r \<noteq> ln" for r
    using that by (simp add: h2_def set_index_def)
  have ys_low: "ys ! j = xs ! j" if "j < n" for j
    using that n_le by (simp add: ys_def nth_append)
  have ys_mid: "ys ! n = Some ln"
    using n_le by (simp add: ys_def nth_append)
  have ys_high: "ys ! Suc j = xs ! j" if "n \<le> j" "j < length xs" for j
  proof -
    from that n_le have "ys ! Suc j = (Some ln # drop n xs) ! (Suc j - n)"
      by (simp add: ys_def nth_append)
    also from that have "Suc j - n = Suc (j - n)" by simp
    finally show ?thesis using that by simp
  qed
  have low: "h' r = heap st r" if "j < n" "xs ! j = Some r" for j r
  proof -
    from that n_le have mem: "Some r \<in> set (take n xs)"
      by (metis length_take min.absorb2 nth_mem nth_take)
    with disj have "Some r \<notin> set (drop n xs)" by auto
    moreover from mem ln_take have "r \<noteq> ln" by auto
    ultimately show ?thesis by (simp add: frame h2_other)
  qed
  have high: "index (h' r) = index (heap st r) + 1"
    if "n \<le> j" "j < length xs" "xs ! j = Some r" for j r
  proof -
    from that k0 have "nat (k + 2) \<le> Suc j" by (simp add: n_def)
    moreover from that have "Suc j < length ys" by (simp add: len_ys)
    moreover from that have "ys ! Suc j = Some r" by (simp add: ys_high)
    ultimately have "index (h' r) = index (h2 r) + 1"
      using shift_from_effect[OF _ run dys, of "Suc j" r] k0 by simp
    moreover from that fresh have "r \<noteq> ln" by (metis nth_mem xs_def)
    ultimately show ?thesis by (simp add: h2_other)
  qed
  have new: "h' ln = h2 ln" using ln_drop by (rule frame)
  then have new_index: "index (h' ln) = k + 1" and new_content: "content (h' ln) = content (heap st ln)"
    by (simp_all add: h2_def set_index_def)
  define st' where "st' = st\<lparr>list := ys, heap := h',
    calls := calls st @ [InsertLine (k + 1) (sanitize (content (h' ln)))]\<rparr>"
  have res: "insertAfter ln k st = Inr st'"
    by (simp add: insertAfter_unfold[OF ins] run st'_def h2_def[symmetric])
  have up: "\<forall>r. Some r \<in> set (list st) \<longrightarrow> k < index (heap st r) \<longrightarrow>
      index (heap st' r) = index (heap st r) + 1"
  proof (intro allI impI)
    fix r assume "Some r \<in> set (list st)" and gt: "k < index (heap st r)"
    then obtain j where j: "j < length xs" "xs ! j = Some r"
      by (auto simp: xs_def in_set_conv_nth)
    with gt idx[of j r] n_k have "n \<le> j" by simp
    with j show "index (heap st' r) = index (heap st r) + 1"
      by (simp add: st'_def high)
  qed
  have same: "\<forall>r. Some r \<in> set (list st) \<longrightarrow> index (heap st r) \<le> k \<longrightarrow>
      heap st' r = heap st r"
  proof (intro allI impI)
    fix r assume "Some r \<in> set (list st)" and le: "index (heap st r) \<le> k"
    then obtain j where j: "j < length xs" "xs ! j = Some r"
      by (auto simp: xs_def in_set_conv_nth)
    with le idx[of j r] n_k have "j < n" by simp
    with j show "heap st' r = heap st r"
      by (simp add: st'_def low)
  qed
  have inv': "index_inv st'"
  proof -
    have "\<exists>r. ys ! j = Some r \<and> index (h' r) = int j" if "j < length ys" for j
    proof -
      consider "j < n" | "j = n" | "n < j" by linarith
      then show ?thesis
      proof cases
        case 1
        with n_le have lt: "j < length xs" by simp
        from index_inv_nth[OF inv, of j] lt obtain r
          where r: "xs ! j = Some r" "index (heap st r) = int j" by (auto simp: xs_def)
        with 1 show ?thesis by (simp add: ys_low low[of j r])
      next
        case 2
        then show ?thesis by (simp add: ys_mid new_index n_k)
      next
        case 3
        then obtain i where i: "j = Suc i" "n \<le> i" by (cases j) auto
        with that have lt: "i < length xs" by (simp add: len_ys)
        from index_inv_nth[OF inv, of i] lt obtain r
          where r: "xs ! i = Some r" "index (heap st r) = int i" by (auto simp: xs_def)
        with i lt show ?thesis by (simp add: ys_high high[of i r])
      qed
    qed
    then show ?thesis by (simp add: index_inv_iff st'_def)
  qed
  have "list st' = take (nat (k + 1)) (list st) @ Some ln # drop (nat (k + 1)) (list st)"
    by (simp add: st'_def ys_def n_def xs_def)
  moreover have "index (heap st' ln) = k + 1" by (simp add: st'_def new_index)
  moreover have "calls st' = calls st @ [InsertLine (k + 1) (sanitize (content (heap st ln)))]"
    by (simp add: st'_def new_content)
  ultimately show ?thesis using res up same inv' by blast
qed
section \<open>sanitize\<close>

lemma sanitize_append: "sanitize (a @ b) = sanitize a @ sanitize b"
  by (induction a) simp_all

lemma sanitize_no_LF: "LF \<notin> set (sanitize s)"
  by (induction s) (simp_all add: LF_def RETURN_SYMBOL_def SPACE_def)

lemma sanitize_id: "LF \<notin> set s \<Longrightarrow> sanitize s = s"
  by (induction s) auto

lemma sanitize_length: "length (sanitize s) = length s + count_list s LF"
  by (induction s) simp_all

text \<open>
  C8, as the code has it. A string without a line feed (U+000A) is returned as it is.
  The result never holds a line feed. Every line feed is replaced by two code units, the
  marker U+23CE followed by a space U+0020, and everything else is kept: the result is
  longer than the input by the number of line feeds.
\<close>

theorem sanitize_marker_and_space:
  "(LF \<notin> set s \<longrightarrow> sanitize s = s) \<and>
   LF \<notin> set (sanitize s) \<and>
   sanitize (a @ LF # b) = sanitize a @ [RETURN_SYMBOL, SPACE] @ sanitize b \<and>
   length (sanitize s) = length s + count_list s LF"
  by (simp add: sanitize_append sanitize_no_LF sanitize_id sanitize_length)

theorem sanitize_marker_and_space_witness:
  "LF \<notin> set [0x61, 0x62] \<and> sanitize [0x61, 0x62] = [0x61, 0x62] \<and>
   sanitize ([0x61] @ LF # [0x62]) = [0x61, RETURN_SYMBOL, SPACE, 0x62]"
  using sanitize_marker_and_space[of "[0x61, 0x62]" "[0x61]" "[0x62]"]
  by (simp add: LF_def)

text \<open>
  C8 as stated fails: \<^verbatim>\<open>sanitize("a\nb")\<close> is the four code units
  \<^verbatim>\<open>a\<close>, U+23CE, space, \<^verbatim>\<open>b\<close>; the line break is not replaced by the marker alone.
\<close>

theorem sanitize_single_marker_counterexample:
  "sanitize [0x61, 0x0A, 0x62] = [0x61, 0x23CE, 0x20, 0x62] \<and>
   sanitize [0x61, 0x0A, 0x62] \<noteq> [0x61, 0x23CE, 0x62]"
  by (simp add: LF_def RETURN_SYMBOL_def SPACE_def)

section \<open>reIndex\<close>

lemma nth_notin_drop:
  assumes "distinct xs" "j < n" "j < length xs"
  shows "xs ! j \<notin> set (drop n xs)"
proof
  assume "xs ! j \<in> set (drop n xs)"
  then obtain i where i: "i < length (drop n xs)" "drop n xs ! i = xs ! j"
    by (auto simp: in_set_conv_nth)
  then have "n + i < length xs" "xs ! (n + i) = xs ! j" by simp_all
  with assms(1,3) have "n + i = j" by (simp add: nth_eq_iff_index_eq)
  with assms(2) show False by simp
qed

lemma reindex_from_Inr_line:
  "0 \<le> i \<Longrightarrow> reindex_from i xs h = Inr h' \<Longrightarrow> nat i \<le> j \<Longrightarrow> j < length xs \<Longrightarrow>
   \<exists>r. xs ! j = Some r"
proof (induction i xs h arbitrary: j rule: reindex_from.induct)
  case (1 i xs h)
  from "1.prems" have lt: "i < int (length xs)" by linarith
  from "1.prems"(1) lt "1.prems"(2)
  obtain q where q: "xs ! nat i = Some q"
    and run: "reindex_from (i + 1) xs (set_index q i h) = Inr h'"
    by (rule reindex_from_Inr_step)
  show ?case
  proof (cases "j = nat i")
    case True
    with q show ?thesis by simp
  next
    case False
    with "1.prems" have "nat (i + 1) \<le> j" by linarith
    from "1.IH"[OF lt _ q _ run this "1.prems"(4)] "1.prems"(1)
    show ?thesis by simp
  qed
qed

lemma reindex_from_inv:
  assumes d: "distinct xs" and m: "0 \<le> m"
    and low: "\<forall>j < length xs. j < nat m \<longrightarrow> (\<exists>r. xs ! j = Some r \<and> index (h r) = int j)"
    and run: "reindex_from m xs h = Inr h'"
  shows "\<forall>j < length xs. \<exists>r. xs ! j = Some r \<and> index (h' r) = int j"
proof (intro allI impI)
  fix j assume j: "j < length xs"
  show "\<exists>r. xs ! j = Some r \<and> index (h' r) = int j"
  proof (cases "nat m \<le> j")
    case True
    from reindex_from_Inr_line[OF m run True j] obtain r where r: "xs ! j = Some r" by blast
    from reindex_from_effect[OF m run d True j r] r show ?thesis by simp
  next
    case False
    with low j obtain r where r: "xs ! j = Some r" "index (h r) = int j" by auto
    from False d j have "xs ! j \<notin> set (drop (nat m) xs)" by (simp add: nth_notin_drop)
    with r(1) have "Some r \<notin> set (drop (nat m) xs)" by simp
    with m run have "h' r = h r" by (rule reindex_from_frame)
    with r show ?thesis by simp
  qed
qed

lemma reIndex_Inr:
  assumes "reIndex start st = Inr st'"
  shows "0 \<le> (case start of None \<Rightarrow> 0 | Some n \<Rightarrow> n) \<and>
    (\<exists>h'. reindex_from (case start of None \<Rightarrow> 0 | Some n \<Rightarrow> n) (list st) (heap st) = Inr h' \<and>
          st' = st\<lparr>heap := h'\<rparr>)"
proof -
  let ?s = "case start of None \<Rightarrow> 0 | Some n \<Rightarrow> n"
  have "0 \<le> ?s"
  proof (rule ccontr)
    assume "\<not> 0 \<le> ?s"
    then have "reindex_from ?s (list st) (heap st) = Inl (TypeError, heap st)"
      by (simp add: reindex_from_neg)
    with assms show False by (simp add: reIndex_def Let_def)
  qed
  moreover from assms
  have "\<exists>h'. reindex_from ?s (list st) (heap st) = Inr h' \<and> st' = st\<lparr>heap := h'\<rparr>"
    by (auto simp: reIndex_def Let_def split: sum.splits prod.splits)
  ultimately show ?thesis by simp
qed

lemma reIndex_establishes:
  assumes d: "distinct (list st)"
    and low: "\<forall>j < length (list st).
        j < nat (case start of None \<Rightarrow> 0 | Some n \<Rightarrow> n) \<longrightarrow>
        (\<exists>r. list st ! j = Some r \<and> index (heap st r) = int j)"
    and run: "reIndex start st = Inr st'"
  shows "index_inv st'"
proof -
  let ?s = "case start of None \<Rightarrow> 0 | Some n \<Rightarrow> n"
  from reIndex_Inr[OF run] obtain h' where s: "0 \<le> ?s"
    and h': "reindex_from ?s (list st) (heap st) = Inr h'" and st': "st' = st\<lparr>heap := h'\<rparr>"
    by blast
  from reindex_from_inv[OF d s low h'] show ?thesis
    by (simp add: index_inv_iff st')
qed


section \<open>clearLines\<close>

lemma delete_each_heap: "heap (delete_each ds st) = heap st"
  by (induction ds arbitrary: st) simp_all

lemma delete_each_calls: "calls (delete_each ds st) = calls st @ map DeleteLine ds"
  by (induction ds arbitrary: st) simp_all

lemma delete_each_list: "list (delete_each ds st) = fold (\<lambda>i ys. splice1 ys i) ds (list st)"
  by (induction ds arbitrary: st) simp_all

lemma splice1_distinct: "distinct xs \<Longrightarrow> distinct (splice1 xs i)"
proof -
  assume d: "distinct xs"
  have "set (take (splice_start xs i) xs) \<inter> set (drop (Suc (splice_start xs i)) xs) = {}"
    using d by (rule set_take_disj_set_drop_if_distinct) simp
  with d show ?thesis by (simp add: splice1_def)
qed

lemma splice1_take:
  assumes "0 \<le> m" "m \<le> i"
  shows "take (nat m) (splice1 xs i) = take (nat m) xs"
proof (cases "i < int (length xs)")
  case True
  with assms have "splice_start xs i = nat i" "nat m \<le> nat i"
    by (simp_all add: splice_start_in)
  then show ?thesis by (simp add: splice1_def min_def)
next
  case False
  with assms have "splice_start xs i = length xs"
    by (simp add: splice_start_def Let_def min_def)
  then show ?thesis by (simp add: splice1_def)
qed

lemma fold_splice1_distinct:
  "distinct xs \<Longrightarrow> distinct (fold (\<lambda>i ys. splice1 ys i) ds xs)"
  by (induction ds arbitrary: xs) (simp_all add: splice1_distinct)

lemma fold_splice1_take:
  "0 \<le> m \<Longrightarrow> \<forall>i \<in> set ds. m \<le> i \<Longrightarrow>
   take (nat m) (fold (\<lambda>i ys. splice1 ys i) ds xs) = take (nat m) xs"
  by (induction ds arbitrary: xs) (simp_all add: splice1_take)

lemma sort_head_least:
  assumes "sort ds = m # rest"
  shows "\<forall>i \<in> set ds. m \<le> i"
proof -
  have "sorted (m # rest)" using assms by (metis sorted_sort)
  moreover have "set ds = set (m # rest)" using assms by (metis set_sort)
  ultimately show ?thesis by auto
qed

lemma take_eq_nth:
  assumes "take n ys = take n xs" "j < n" "j < length ys"
  shows "j < length xs \<and> ys ! j = xs ! j"
proof -
  from assms(1) have "length (take n ys) = length (take n xs)" by simp
  with assms(2,3) have lt: "j < length xs" by (simp add: min_def split: if_splits)
  from assms(2) have "ys ! j = take n ys ! j" by simp
  also have "\<dots> = take n xs ! j" by (simp only: assms(1))
  also from assms(2) have "\<dots> = xs ! j" by simp
  finally show ?thesis using lt by simp
qed

lemma clearLines_unfold:
  "clearLines ds st =
     reIndex (case sort ds of [] \<Rightarrow> None | m # _ \<Rightarrow> Some m) (delete_each (rev (sort ds)) st)"
  by (simp add: clearLines_def Let_def)


section \<open>C1: the index invariant\<close>








section \<open>C2: insertAfter with the index of a line of the list\<close>

text \<open>
  C2. Let the list have \<open>N\<close> lines, each with its position as index, let \<open>ln\<close> be a line
  that is not in the list, and \<open>k\<close> an index of the list (\<open>0 \<le> k < N\<close>). Then
  \<^verbatim>\<open>insertAfter(ln, k)\<close> returns, the list has \<open>N + 1\<close> lines, \<open>ln\<close> is at position
  \<open>k + 1\<close> with index \<open>k + 1\<close>, every line whose index was greater than \<open>k\<close> has its
  index increased by exactly one, the lines with an index up to \<open>k\<close> are unchanged and
  stay where they were, and the call \<^verbatim>\<open>box.insertLine(k + 1, sanitize(ln))\<close> is made.
\<close>

theorem insertAfter_existing_index:
  assumes "index_inv st" and "Some ln \<notin> set (list st)"
    and "0 \<le> k" and "k < int (length (list st))"
  shows "\<exists>st'. insertAfter ln k st = Inr st' \<and>
    length (list st') = length (list st) + 1 \<and>
    list st' ! (nat k + 1) = Some ln \<and>
    index (heap st' ln) = k + 1 \<and>
    (\<forall>r. Some r \<in> set (list st) \<longrightarrow> k < index (heap st r) \<longrightarrow>
        index (heap st' r) = index (heap st r) + 1) \<and>
    (\<forall>r. Some r \<in> set (list st) \<longrightarrow> index (heap st r) \<le> k \<longrightarrow> heap st' r = heap st r) \<and>
    take (nat k + 1) (list st') = take (nat k + 1) (list st) \<and>
    drop (nat k + 2) (list st') = drop (nat k + 1) (list st) \<and>
    calls st' = calls st @ [InsertLine (k + 1) (sanitize (content (heap st ln)))]"
proof -
  from assms(3) have k1: "- 1 \<le> k" by simp
  from assms(3,4) have n: "nat (k + 1) = nat k + 1" "nat k + 1 \<le> length (list st)"
    by simp_all
  from insertAfter_valid[OF assms(1,2) k1 assms(4)] obtain st' where st':
    "insertAfter ln k st = Inr st'"
    "list st' = take (nat (k + 1)) (list st) @ Some ln # drop (nat (k + 1)) (list st)"
    "index (heap st' ln) = k + 1"
    "\<forall>r. Some r \<in> set (list st) \<longrightarrow> k < index (heap st r) \<longrightarrow>
        index (heap st' r) = index (heap st r) + 1"
    "\<forall>r. Some r \<in> set (list st) \<longrightarrow> index (heap st r) \<le> k \<longrightarrow> heap st' r = heap st r"
    "calls st' = calls st @ [InsertLine (k + 1) (sanitize (content (heap st ln)))]"
    by blast
  from st'(2) n
  have l: "list st' = take (nat k + 1) (list st) @ Some ln # drop (nat k + 1) (list st)"
    by simp
  from l n(2) have "length (list st') = length (list st) + 1" by simp
  moreover from l n(2) have "list st' ! (nat k + 1) = Some ln" by (simp add: nth_append)
  moreover from l n(2) have "take (nat k + 1) (list st') = take (nat k + 1) (list st)" by simp
  moreover from l n(2) have "drop (nat k + 2) (list st') = drop (nat k + 1) (list st)" by simp
  ultimately show ?thesis using st'(1,3,4,5,6) by blast
qed

theorem insertAfter_existing_index_witness:
  "index_inv two_lines \<and> Some 2 \<notin> set (list two_lines) \<and> (0::int) \<le> 0 \<and>
   0 < int (length (list two_lines)) \<and>
   (\<exists>st'. insertAfter 2 0 two_lines = Inr st' \<and>
      length (list st') = 3 \<and> list st' ! 1 = Some 2 \<and>
      index (heap st' 2) = 1 \<and> index (heap st' 1) = 2 \<and> index (heap st' 0) = 0 \<and>
      calls st' = calls two_lines @ [InsertLine 1 []])"
proof -
  have inv: "index_inv two_lines" by (rule two_lines_inv)
  have fresh: "Some 2 \<notin> set (list two_lines)" by (simp add: two_lines_list)
  have k0: "(0::int) \<le> 0" by simp
  have kN: "0 < int (length (list two_lines))" by (simp add: two_lines_list)
  from insertAfter_existing_index[OF inv fresh k0 kN] obtain st' where st':
    "insertAfter 2 0 two_lines = Inr st'" "length (list st') = length (list two_lines) + 1"
    "list st' ! (nat 0 + 1) = Some 2" "index (heap st' 2) = 0 + 1"
    "\<forall>r. Some r \<in> set (list two_lines) \<longrightarrow> 0 < index (heap two_lines r) \<longrightarrow>
        index (heap st' r) = index (heap two_lines r) + 1"
    "\<forall>r. Some r \<in> set (list two_lines) \<longrightarrow> index (heap two_lines r) \<le> 0 \<longrightarrow>
        heap st' r = heap two_lines r"
    "calls st' = calls two_lines @ [InsertLine (0 + 1) (sanitize (content (heap two_lines 2)))]"
    by blast
  have h: "index (heap two_lines 0) = 0" "index (heap two_lines 1) = 1"
    "content (heap two_lines 2) = []"
    by (simp_all add: two_lines_heap set_index_def blank_def)
  have mem: "Some 0 \<in> set (list two_lines)" "Some 1 \<in> set (list two_lines)"
    by (simp_all add: two_lines_list)
  from st'(5) mem(2) h(2) have "index (heap st' 1) = 2" by simp
  moreover from st'(6) mem(1) h(1) have "index (heap st' 0) = 0" by simp
  moreover from st'(2) have "length (list st') = 3" by (simp add: two_lines_list)
  moreover from st'(7) h(3) have "calls st' = calls two_lines @ [InsertLine 1 []]" by simp
  ultimately show ?thesis using inv fresh kN st'(1,3,4) by simp
qed

section \<open>C10: clearLines of no index\<close>

text \<open>
  C10. On a list whose lines have their positions as indices, \<^verbatim>\<open>clearLines([])\<close>
  returns and changes nothing: the state after it is the state before it, so the list,
  every line with its index, and the calls made to the box (no \<^verbatim>\<open>deleteLine\<close> among
  them) are the same.
\<close>

theorem clearLines_empty_unchanged:
  assumes "index_inv st"
  shows "clearLines [] st = Inr st"
proof -
  from assms have "\<forall>j < length (list st). nat 0 \<le> j \<longrightarrow>
      (\<exists>r. list st ! j = Some r \<and> index (heap st r) = int j)"
    by (simp add: index_inv_iff)
  then have "reindex_from 0 (list st) (heap st) = Inr (heap st)"
    by (intro reindex_from_id) simp_all
  then show ?thesis by (simp add: clearLines_unfold reIndex_def)
qed

theorem clearLines_empty_unchanged_witness:
  "index_inv two_lines \<and> clearLines [] two_lines = Inr two_lines"
  using two_lines_inv clearLines_empty_unchanged[OF two_lines_inv] by simp
section \<open>C3: removing a line with its descendants\<close>

lemma nths_cong_below:
  assumes "\<And>j. j < length l \<Longrightarrow> (j \<in> A) = (j \<in> B)"
  shows "nths l A = nths l B"
proof -
  have "filter (\<lambda>p. snd p \<in> A) (zip l [0..<length l]) =
        filter (\<lambda>p. snd p \<in> B) (zip l [0..<length l])"
  proof (rule filter_cong[OF refl])
    fix p assume "p \<in> set (zip l [0..<length l])"
    then have "snd p \<in> set [0..<length l]" by (metis prod.collapse set_zip_rightD)
    then show "(snd p \<in> A) = (snd p \<in> B)" using assms by simp
  qed
  then show ?thesis by (simp add: nths_def)
qed

lemma nths_delete_largest:
  assumes n: "n < length xs" and below: "\<forall>d \<in> S. d < int n"
  shows "nths (take n xs @ drop (Suc n) xs) {j. int j \<notin> S} =
         nths xs {j. int j \<notin> insert (int n) S}"
proof -
  let ?A = "{j. int j \<notin> S}" and ?B = "{j. int j \<notin> insert (int n) S}"
  let ?t = "take n xs" and ?d = "drop (Suc n) xs"
  from n have len: "length ?t = n" by simp
  have low: "nths ?t ?B = nths ?t ?A"
    by (rule nths_cong_below) simp
  have high_A: "nths ?d {j. j + length ?t \<in> ?A} = ?d"
  proof (rule nths_all, intro allI impI)
    fix i
    from below have "int (i + n) \<notin> S" by fastforce
    then show "i \<in> {j. j + length ?t \<in> ?A}" by (simp only: len mem_Collect_eq) simp
  qed
  have high_B: "nths (xs ! n # ?d) {j. j + length ?t \<in> ?B} = ?d"
  proof -
    have "0 \<notin> {j. j + length ?t \<in> ?B}" by (simp only: len) simp
    moreover have "nths ?d {j. Suc j \<in> {j. j + length ?t \<in> ?B}} = ?d"
    proof (rule nths_all, intro allI impI)
      fix i
      from below have "int (Suc i + n) \<notin> insert (int n) S" by fastforce
      then show "i \<in> {j. Suc j \<in> {j. j + length ?t \<in> ?B}}"
        by (simp only: len mem_Collect_eq) simp
    qed
    ultimately show ?thesis by (simp only: nths_Cons if_False append_Nil)
  qed
  have "nths (?t @ ?d) ?A = nths ?t ?A @ ?d"
    by (simp only: nths_append high_A)
  moreover have "nths (?t @ xs ! n # ?d) ?B = nths ?t ?A @ ?d"
    by (simp only: nths_append high_B low)
  moreover from n have "?t @ xs ! n # ?d = xs"
    by (rule id_take_nth_drop[symmetric])
  ultimately show ?thesis by simp
qed

lemma splice1_in: "0 \<le> d \<Longrightarrow> d < int (length xs) \<Longrightarrow>
   splice1 xs d = take (nat d) xs @ drop (Suc (nat d)) xs"
  by (simp add: splice1_def splice_start_in)

lemma fold_splice1_descending:
  assumes "sorted (rev ds)" "distinct ds" "\<forall>d \<in> set ds. 0 \<le> d \<and> d < int (length xs)"
  shows "fold (\<lambda>i ys. splice1 ys i) ds xs = nths xs {j. int j \<notin> set ds} \<and>
         length (fold (\<lambda>i ys. splice1 ys i) ds xs) + length ds = length xs"
  using assms
proof (induction ds arbitrary: xs)
  case Nil
  then show ?case by (simp add: nths_all)
next
  case (Cons d ds)
  from Cons.prems(3) have d: "0 \<le> d" "d < int (length xs)" by simp_all
  then have n: "nat d < length xs" by simp
  let ?ys = "take (nat d) xs @ drop (Suc (nat d)) xs"
  from Cons.prems(1) have srt: "sorted (rev ds)" and le: "\<forall>e \<in> set ds. e \<le> d"
    by (auto simp: sorted_append)
  have lt: "\<forall>e \<in> set ds. e < d"
  proof
    fix e assume e: "e \<in> set ds"
    with Cons.prems(2) have "e \<noteq> d" by auto
    with le e show "e < d" by fastforce
  qed
  from n have len: "length ?ys + 1 = length xs" by simp
  have rng: "\<forall>e \<in> set ds. 0 \<le> e \<and> e < int (length ?ys)"
  proof
    fix e assume e: "e \<in> set ds"
    with Cons.prems(3) have "0 \<le> e" by simp
    moreover from e lt have "e < d" by simp
    ultimately show "0 \<le> e \<and> e < int (length ?ys)" using d len by linarith
  qed
  from Cons.prems(2) have "distinct ds" by simp
  from Cons.IH[OF srt this rng]
  have ih: "fold (\<lambda>i ys. splice1 ys i) ds ?ys = nths ?ys {j. int j \<notin> set ds}"
    "length (fold (\<lambda>i ys. splice1 ys i) ds ?ys) + length ds = length ?ys"
    by blast+
  from lt d have "\<forall>e \<in> set ds. e < int (nat d)" by simp
  from nths_delete_largest[OF n this] d(1)
  have "nths ?ys {j. int j \<notin> set ds} = nths xs {j. int j \<notin> set (d # ds)}" by simp
  with ih(1) have "fold (\<lambda>i ys. splice1 ys i) ds ?ys = nths xs {j. int j \<notin> set (d # ds)}"
    by (simp only:)
  moreover from ih(2) len
  have "length (fold (\<lambda>i ys. splice1 ys i) ds ?ys) + length (d # ds) = length xs"
    by simp
  ultimately show ?case by (simp only: fold_simps splice1_in[OF d] o_apply)
qed

lemma nths_filter_index:
  assumes "\<forall>j < length xs. f (xs ! j) = int j"
  shows "nths xs {j. int j \<notin> S} = filter (\<lambda>r. f r \<notin> S) xs"
  using assms
proof (induction xs rule: rev_induct)
  case Nil
  then show ?case by simp
next
  case (snoc x xs)
  from snoc.prems have "\<forall>j < length xs. f (xs ! j) = int j"
    by (metis length_append_singleton less_SucI nth_append)
  with snoc.IH have ih: "nths xs {j. int j \<notin> S} = filter (\<lambda>r. f r \<notin> S) xs" by simp
  from snoc.prems have "f x = int (length xs)"
    by (metis length_append_singleton lessI nth_append_length)
  with ih show ?case by (simp add: nths_append nths_Cons)
qed

lemma removeLine_unfold:
  "0 \<le> k \<Longrightarrow> k < int (length (list st)) \<Longrightarrow> list st ! nat k = Some ln \<Longrightarrow>
   removeLine getAllIndices k st =
     (case clearLines (getAllIndices st ln) st of
        Inl (e, st1) \<Rightarrow> Inl (e, st1)
      | Inr st1 \<Rightarrow> Inr (render st1))"
  by (simp add: removeLine_def Let_def)

lemma clearLines_existing:
  assumes inv: "index_inv st" and ne: "ds \<noteq> []" and dist: "distinct ds"
    and rng: "\<forall>d \<in> set ds. 0 \<le> d \<and> d < int (length (list st))"
  shows "\<exists>st'. clearLines ds st = Inr st' \<and>
    list st' = filter (\<lambda>e. index (heap st (the e)) \<notin> set ds) (list st) \<and>
    length (list st') + length ds = length (list st) \<and>
    calls st' = calls st @ map DeleteLine (rev (sort ds)) \<and>
    (\<forall>j < length (list st). int j < Min (set ds) \<longrightarrow>
        list st' ! j = list st ! j \<and>
        heap st' (the (list st ! j)) = heap st (the (list st ! j))) \<and>
    index_inv st'"
proof -
  let ?rs = "rev (sort ds)"
  let ?st1 = "delete_each ?rs st"
  from ne obtain m rest where srt: "sort ds = m # rest"
    by (cases "sort ds") (auto dest: arg_cong[where f=length])
  have m_least: "\<forall>i \<in> set ds. m \<le> i" using srt by (rule sort_head_least)
  have "m \<in> set (sort ds)" using srt by simp
  then have m_in: "m \<in> set ds" by simp
  with rng have m0: "0 \<le> m" by simp
  from m_in m_least have m_Min: "Min (set ds) = m"
    by (intro Min_eqI) simp_all
  have rs: "sorted (rev ?rs)" "distinct ?rs" "set ?rs = set ds" "length ?rs = length ds"
    using dist by simp_all
  from rng rs(3) have rng': "\<forall>d \<in> set ?rs. 0 \<le> d \<and> d < int (length (list st))" by simp
  from fold_splice1_descending[OF rs(1,2) rng']
  have l1': "fold (\<lambda>i ys. splice1 ys i) ?rs (list st) = nths (list st) {j. int j \<notin> set ?rs}"
    and len1': "length (fold (\<lambda>i ys. splice1 ys i) ?rs (list st)) + length ?rs =
      length (list st)"
    by blast+
  from l1' have l1: "list ?st1 = nths (list st) {j. int j \<notin> set ds}"
    by (simp only: delete_each_list rs(3))
  from len1' have len1: "length (list ?st1) + length ds = length (list st)"
    by (simp only: delete_each_list rs(4))
  have idx: "\<forall>j < length (list st). index (heap st (the (list st ! j))) = int j"
  proof (intro allI impI)
    fix j assume "j < length (list st)"
    from index_inv_nth[OF inv this] show "index (heap st (the (list st ! j))) = int j"
      by auto
  qed
  from l1 nths_filter_index[OF idx, of "set ds"]
  have l1f: "list ?st1 = filter (\<lambda>e. index (heap st (the e)) \<notin> set ds) (list st)" by simp
  have d1: "distinct (list ?st1)"
    using inv by (simp add: delete_each_list fold_splice1_distinct index_inv_distinct)
  have nh1: "None \<notin> set (list ?st1)"
    using index_inv_no_hole[OF inv] by (simp add: l1f)
  have tk: "take (nat m) (list ?st1) = take (nat m) (list st)"
  proof -
    from m_least rs(3) have "\<forall>i \<in> set ?rs. m \<le> i" by simp
    with m0 show ?thesis by (simp only: delete_each_list fold_splice1_take)
  qed
  from nh1 have "None \<notin> set (drop (nat m) (list ?st1))" by (metis in_set_dropD)
  with m0 obtain h' where h': "reindex_from m (list ?st1) (heap st) = Inr h'"
    using reindex_from_total[of m "list ?st1" "heap st"] by auto
  define st' where "st' = ?st1\<lparr>heap := h'\<rparr>"
  have run': "reIndex (Some m) ?st1 = Inr st'"
    by (simp add: reIndex_def delete_each_heap h' st'_def)
  have "(case sort ds of [] \<Rightarrow> None | m # _ \<Rightarrow> Some m) = Some m"
    by (simp add: srt)
  with run' have run: "clearLines ds st = Inr st'"
    by (simp only: clearLines_unfold)
  have low: "\<forall>j < length (list ?st1). j < nat (case Some m of None \<Rightarrow> 0 | Some n \<Rightarrow> n) \<longrightarrow>
      (\<exists>r. list ?st1 ! j = Some r \<and> index (heap ?st1 r) = int j)"
  proof (intro allI impI)
    fix j assume j: "j < length (list ?st1)" "j < nat (case Some m of None \<Rightarrow> 0 | Some n \<Rightarrow> n)"
    then have jm: "j < nat m" by simp
    from take_eq_nth[OF tk jm j(1)]
    have "j < length (list st)" "list ?st1 ! j = list st ! j" by simp_all
    with index_inv_nth[OF inv, of j]
    show "\<exists>r. list ?st1 ! j = Some r \<and> index (heap ?st1 r) = int j"
      by (simp add: delete_each_heap)
  qed
  from d1 low run' have inv': "index_inv st'" by (rule reIndex_establishes)
  have before: "\<forall>j < length (list st). int j < Min (set ds) \<longrightarrow>
        list st' ! j = list st ! j \<and>
        heap st' (the (list st ! j)) = heap st (the (list st ! j))"
  proof (intro allI impI)
    fix j assume j: "j < length (list st)" "int j < Min (set ds)"
    with m_Min m0 have jm: "j < nat m" by simp
    from tk[symmetric] jm j(1) have "j < length (list ?st1) \<and> list st ! j = list ?st1 ! j"
      by (rule take_eq_nth)
    then have a: "j < length (list ?st1)" "list ?st1 ! j = list st ! j" by simp_all
    from index_inv_nth[OF inv j(1)] obtain r where r: "list st ! j = Some r" by blast
    from a d1 jm have "list st ! j \<notin> set (drop (nat m) (list ?st1))"
      using nth_notin_drop[of "list ?st1" j "nat m"] by simp
    with r have "Some r \<notin> set (drop (nat m) (list ?st1))" by simp
    with m0 h' have "h' r = heap st r" by (rule reindex_from_frame)
    with a r show "list st' ! j = list st ! j \<and>
        heap st' (the (list st ! j)) = heap st (the (list st ! j))"
      by (simp add: st'_def)
  qed
  have "list st' = filter (\<lambda>e. index (heap st (the e)) \<notin> set ds) (list st)"
    using l1f by (simp add: st'_def)
  moreover have "length (list st') + length ds = length (list st)"
    using len1 by (simp add: st'_def)
  moreover have "calls st' = calls st @ map DeleteLine (rev (sort ds))"
    by (simp add: st'_def delete_each_calls)
  ultimately show ?thesis using run before inv' by blast
qed

text \<open>
  C3. Let every line of the list have its position as index, let \<open>k\<close> be an index of the
  list, and let the traversal of the line at \<open>k\<close> yield \<open>C + 1\<close> different indices of the
  list (the line's own and those of its \<open>C\<close> descendants). Then \<^verbatim>\<open>removeLine(k)\<close>
  returns, and exactly the lines with these indices are gone, the others staying in
  their order: \<open>C + 1\<close> lines fewer. The rows are deleted from the box in descending
  order of index, and the screen is rendered. The lines before the least removed index
  are untouched, and after the call every line has its position as index again.
\<close>

theorem removeLine_with_descendants:
  assumes "index_inv st" and "0 \<le> k" and "k < int (length (list st))"
    and "getAllIndices st (the (list st ! nat k)) = ds"
    and "length ds = Suc C" and "distinct ds"
    and "\<forall>d \<in> set ds. 0 \<le> d \<and> d < int (length (list st))"
  shows "\<exists>st'. removeLine getAllIndices k st = Inr st' \<and>
    length (list st') + Suc C = length (list st) \<and>
    list st' = filter (\<lambda>e. index (heap st (the e)) \<notin> set ds) (list st) \<and>
    calls st' = calls st @ map DeleteLine (rev (sort ds)) @ [Render] \<and>
    sorted_wrt (\<lambda>a b. b \<le> a) (rev (sort ds)) \<and>
    (\<forall>j < length (list st). int j < Min (set ds) \<longrightarrow>
        list st' ! j = list st ! j \<and>
        heap st' (the (list st ! j)) = heap st (the (list st ! j))) \<and>
    index_inv st'"
proof -
  from assms(5) have ne: "ds \<noteq> []" by auto
  from assms(2,3) have "nat k < length (list st)" by linarith
  from index_inv_nth[OF assms(1) this] obtain ln where ln: "list st ! nat k = Some ln"
    by blast
  with assms(4) have ds: "getAllIndices st ln = ds" by simp
  from clearLines_existing[OF assms(1) ne assms(6,7)] obtain st1 where st1:
    "clearLines ds st = Inr st1"
    "list st1 = filter (\<lambda>e. index (heap st (the e)) \<notin> set ds) (list st)"
    "length (list st1) + length ds = length (list st)"
    "calls st1 = calls st @ map DeleteLine (rev (sort ds))"
    "\<forall>j < length (list st). int j < Min (set ds) \<longrightarrow>
        list st1 ! j = list st ! j \<and>
        heap st1 (the (list st ! j)) = heap st (the (list st ! j))"
    "index_inv st1"
    by blast
  from st1(1) assms(2,3) ln ds have run: "removeLine getAllIndices k st = Inr (render st1)"
    by (simp add: removeLine_unfold)
  have desc: "sorted_wrt (\<lambda>a b. b \<le> a) (rev (sort ds))"
    by (simp add: sorted_wrt_rev)
  have "length (list (render st1)) + Suc C = length (list st)"
    using st1(3) assms(5) by (simp add: render_def)
  moreover have "list (render st1) =
      filter (\<lambda>e. index (heap st (the e)) \<notin> set ds) (list st)"
    using st1(2) by (simp add: render_def)
  moreover have "calls (render st1) = calls st @ map DeleteLine (rev (sort ds)) @ [Render]"
    using st1(4) by (simp add: render_def)
  moreover have "\<forall>j < length (list st). int j < Min (set ds) \<longrightarrow>
      list (render st1) ! j = list st ! j \<and>
      heap (render st1) (the (list st ! j)) = heap st (the (list st ! j))"
    using st1(5) by (simp add: render_def)
  moreover have "index_inv (render st1)"
    using st1(6) by (simp add: render_def index_inv_iff)
  ultimately show ?thesis using run desc by blast
qed

theorem removeLine_with_descendants_witness:
  "index_inv three_lines \<and> (0::int) \<le> 1 \<and> 1 < int (length (list three_lines)) \<and>
   example_indices three_lines (the (list three_lines ! nat 1)) = [1, 2] \<and>
   length [1, 2 :: int] = Suc 1 \<and> distinct [1, 2 :: int] \<and>
   (0::int) \<le> 2 \<and> 2 < int (length (list three_lines)) \<and>
   (\<exists>st'. removeLine example_indices 1 three_lines = Inr st' \<and>
      length (list st') + 2 = 3 \<and> list st' = [Some 0] \<and>
      calls st' = calls three_lines @ [DeleteLine 2, DeleteLine 1, Render] \<and>
      index_inv st')"
proof -
  have a: "index_inv three_lines" by (rule three_lines_inv)
  have b: "(0::int) \<le> 1" by simp
  have c: "1 < int (length (list three_lines))" by (simp add: three_lines_list)
  have d: "example_indices three_lines (the (list three_lines ! nat 1)) = [1, 2]"
    by (simp add: example_indices_def three_lines_list three_lines_heap set_index_def)
  have e: "length [1, 2 :: int] = Suc 1" by simp
  have f: "distinct [1, 2 :: int]" by simp
  have g: "\<forall>d \<in> set [1, 2]. 0 \<le> d \<and> d < int (length (list three_lines))"
    by (simp add: three_lines_list)
  have h: "filter (\<lambda>e. index (heap three_lines (the e)) \<notin> set [1, 2]) (list three_lines) =
      [Some 0]"
    by (simp add: three_lines_list three_lines_heap set_index_def)
  from removeLine_with_descendants[where getAllIndices = example_indices and st = three_lines
      and k = 1, OF a b c d e f g] obtain st' where st':
    "removeLine example_indices 1 three_lines = Inr st'"
    "length (list st') + Suc 1 = length (list three_lines)"
    "list st' =
      filter (\<lambda>e. index (heap three_lines (the e)) \<notin> set [1, 2]) (list three_lines)"
    "calls st' = calls three_lines @ map DeleteLine (rev (sort [1, 2])) @ [Render]"
    "index_inv st'"
    by blast
  from st'(3) h have l: "list st' = [Some 0]" by (simp only:)
  from st'(2) have n: "length (list st') + 2 = 3" by (simp add: three_lines_list)
  from st'(4) have cs: "calls st' = calls three_lines @ [DeleteLine 2, DeleteLine 1, Render]"
    by simp
  from st'(1,5) l n cs
  have "\<exists>st'. removeLine example_indices 1 three_lines = Inr st' \<and>
      length (list st') + 2 = 3 \<and> list st' = [Some 0] \<and>
      calls st' = calls three_lines @ [DeleteLine 2, DeleteLine 1, Render] \<and>
      index_inv st'"
    by (intro exI[of _ st'] conjI)
  with a c d show ?thesis by (simp add: three_lines_list)
qed
section \<open>C4: insertAfter with an index that is not in the list\<close>

lemma insertAfter_past_end:
  assumes "int (length (list st)) + int n < MAX_LENGTH"
  shows "insertAfter ln (int (length (list st)) + int n) st =
     Inr (st\<lparr>list := list st @ replicate n None @ [Some ln],
             heap := set_index ln (int (length (list st)) + int n + 1) (heap st),
             calls := calls st @
               [InsertLine (int (length (list st)) + int n + 1)
                  (sanitize (content (heap st ln)))]\<rparr>)"
proof -
  let ?N = "int (length (list st))"
  let ?ys = "list st @ replicate n None @ [Some ln]"
  have ins: "array_insert (list st) (?N + int n + 1) ln = Inr ?ys"
  proof (cases "n = 0")
    case True
    then show ?thesis by (simp add: array_insert_def splice_in_def splice_start_def)
  next
    case False
    with assms show ?thesis
      by (simp add: array_insert_def splice_in_def splice_start_def Let_def)
  qed
  have "shift_from (?N + int n + 2) ?ys (set_index ln (?N + int n + 1) (heap st)) =
      Inr (set_index ln (?N + int n + 1) (heap st))"
    by (rule shift_from_stop) simp
  then show ?thesis
    by (simp add: insertAfter_unfold[OF ins]) (simp add: set_index_def)
qed

lemma insertAfter_at_max:
  assumes "int (length (list st)) < MAX_LENGTH"
  shows "insertAfter ln MAX_LENGTH st =
     Inl (RangeError, st\<lparr>list := list st @ replicate (nat MAX_LENGTH - length (list st)) None\<rparr>)"
  using assms by (simp add: insertAfter_def array_insert_def Let_def)

lemma insertAfter_beyond_max:
  assumes "MAX_LENGTH < j" "int (length (list st)) < j"
  shows "insertAfter ln j st = Inl (RangeError, st)"
  using assms by (simp add: insertAfter_def array_insert_def Let_def)

lemma insertAfter_far_below:
  assumes "k \<le> - 3"
  shows "insertAfter ln k st =
     Inl (TypeError,
          st\<lparr>list := take (nat (int (length (list st)) + k + 1)) (list st) @ Some ln #
                      drop (nat (int (length (list st)) + k + 1)) (list st),
             heap := set_index ln (k + 1) (heap st)\<rparr>)"
proof -
  let ?p = "nat (int (length (list st)) + k + 1)"
  let ?ys = "take ?p (list st) @ Some ln # drop ?p (list st)"
  from assms have "splice_start (list st) (k + 1) = ?p"
    by (auto simp: splice_start_def Let_def max_def add.assoc)
  with assms have ins: "array_insert (list st) (k + 1) ln = Inr ?ys"
    by (simp add: array_insert_def splice_in_def)
  from assms have "shift_from (k + 2) ?ys (set_index ln (k + 1) (heap st)) =
      Inl (TypeError, set_index ln (k + 1) (heap st))"
    by (intro shift_from_neg) simp
  then show ?thesis by (simp add: insertAfter_unfold[OF ins])
qed

lemma insertAfter_before_last:
  assumes inv: "index_inv st" and fresh: "Some ln \<notin> set (list st)"
  shows "\<exists>st'. insertAfter ln (- 2) st = Inr st' \<and>
    list st' = take (length (list st) - 1) (list st) @ Some ln #
               drop (length (list st) - 1) (list st) \<and>
    index (heap st' ln) = 0 \<and>
    (\<forall>r. Some r \<in> set (list st) \<longrightarrow> index (heap st' r) = index (heap st r) + 1) \<and>
    calls st' = calls st @ [InsertLine (- 1) (sanitize (content (heap st ln)))]"
proof -
  define xs where "xs = list st"
  define p where "p = length xs - 1"
  define ys where "ys = take p xs @ Some ln # drop p xs"
  define h2 where "h2 = set_index ln (- 1) (heap st)"
  have dxs: "distinct xs" using inv by (simp add: xs_def index_inv_distinct)
  have no_hole: "None \<notin> set xs" using inv by (simp add: xs_def index_inv_no_hole)
  have "splice_start xs (- 1) = p"
    by (simp add: splice_start_def Let_def max_def p_def) linarith
  then have ins: "array_insert (list st) (- 2 + 1) ln = Inr ys"
    by (simp add: array_insert_def splice_in_def ys_def xs_def)
  have set_ys: "set ys = insert (Some ln) (set xs)"
  proof -
    have "set (take p xs) \<union> set (drop p xs) = set xs"
      by (metis append_take_drop_id set_append)
    then show ?thesis by (simp add: ys_def)
  qed
  have disj: "set (take p xs) \<inter> set (drop p xs) = {}"
    using dxs by (rule set_take_disj_set_drop_if_distinct) simp
  have ln_take: "Some ln \<notin> set (take p xs)" and ln_drop: "Some ln \<notin> set (drop p xs)"
    using fresh by (auto simp: xs_def dest: in_set_takeD in_set_dropD)
  have dys: "distinct ys"
    using dxs disj ln_take ln_drop by (simp add: ys_def)
  from no_hole set_ys have "None \<notin> set (drop (nat 0) ys)" by simp
  then obtain h' where run: "shift_from 0 ys h2 = Inr h'"
    using shift_from_total[of 0 ys h2] by auto
  have eff: "index (h' r) = index (h2 r) + 1" if "Some r \<in> set ys" for r
  proof -
    from that obtain j where j: "j < length ys" "ys ! j = Some r"
      by (auto simp: in_set_conv_nth)
    show ?thesis using shift_from_effect[OF _ run dys _ j] by simp
  qed
  have new_index: "index (h' ln) = 0"
    using eff[of ln] by (simp add: set_ys h2_def set_index_def)
  have new_content: "content (h' ln) = content (heap st ln)"
    using shift_from_content[OF run, of ln] by (simp add: h2_def set_index_def)
  have old: "index (h' r) = index (heap st r) + 1" if "Some r \<in> set xs" for r
  proof -
    from that fresh have "r \<noteq> ln" by (auto simp: xs_def)
    then have "h2 r = heap st r" by (simp add: h2_def set_index_def)
    with eff[of r] that show ?thesis by (simp add: set_ys)
  qed
  define st' where "st' = st\<lparr>list := ys, heap := h',
    calls := calls st @ [InsertLine (- 1) (sanitize (content (h' ln)))]\<rparr>"
  have res: "insertAfter ln (- 2) st = Inr st'"
    using insertAfter_unfold[OF ins] run by (simp add: h2_def st'_def)
  have "list st' = take (length (list st) - 1) (list st) @ Some ln #
      drop (length (list st) - 1) (list st)"
    by (simp add: st'_def ys_def p_def xs_def)
  moreover have "index (heap st' ln) = 0" by (simp add: st'_def new_index)
  moreover have "\<forall>r. Some r \<in> set (list st) \<longrightarrow>
      index (heap st' r) = index (heap st r) + 1"
    using old by (simp add: st'_def xs_def)
  moreover have "calls st' = calls st @ [InsertLine (- 1) (sanitize (content (heap st ln)))]"
    by (simp add: st'_def new_content)
  ultimately show ?thesis using res by blast
qed

lemma two_lines_fields:
  "index (heap two_lines 0) = 0" "index (heap two_lines 1) = 1"
  "content (heap two_lines 2) = []"
  by (simp_all add: two_lines_heap set_index_def blank_def)

text \<open>
  C4, as claimed, fails. The list of the lines \<open>0\<close> and \<open>1\<close> has no index \<open>2\<close>, and
  \<^verbatim>\<open>insertAfter(line, 2)\<close> returns all the same: the line is appended at position \<open>2\<close>,
  with index \<open>3\<close>, and row \<open>3\<close> of the box is written. The list has no index \<open>-2\<close>, and
  \<^verbatim>\<open>insertAfter(line, -2)\<close> returns as well: the line is put between the two lines,
  with index \<open>0\<close>, and the lines \<open>0\<close> and \<open>1\<close> have the indices \<open>1\<close> and \<open>2\<close> then.
\<close>

theorem insertAfter_rejects_counterexample:
  "insertAfter 2 2 two_lines =
     Inr (two_lines\<lparr>list := [Some 0, Some 1, Some 2], heap := set_index 2 3 (heap two_lines),
                     calls := calls two_lines @ [InsertLine 3 []]\<rparr>) \<and>
   (\<exists>st'. insertAfter 2 (- 2) two_lines = Inr st' \<and>
      list st' = [Some 0, Some 2, Some 1] \<and>
      index (heap st' 0) = 1 \<and> index (heap st' 2) = 0 \<and> index (heap st' 1) = 2 \<and>
      calls st' = calls two_lines @ [InsertLine (- 1) []])"
proof -
  have "int (length (list two_lines)) + int 0 < MAX_LENGTH"
    by (simp add: two_lines_list MAX_LENGTH_def)
  from insertAfter_past_end[OF this, of 2]
  have a: "insertAfter 2 2 two_lines =
     Inr (two_lines\<lparr>list := [Some 0, Some 1, Some 2], heap := set_index 2 3 (heap two_lines),
                     calls := calls two_lines @ [InsertLine 3 []]\<rparr>)"
    by (simp add: two_lines_list two_lines_fields)
  have fresh: "Some 2 \<notin> set (list two_lines)" by (simp add: two_lines_list)
  from insertAfter_before_last[OF two_lines_inv fresh] obtain st' where st':
    "insertAfter 2 (- 2) two_lines = Inr st'"
    "list st' = take (length (list two_lines) - 1) (list two_lines) @ Some 2 #
               drop (length (list two_lines) - 1) (list two_lines)"
    "index (heap st' 2) = 0"
    "\<forall>r. Some r \<in> set (list two_lines) \<longrightarrow>
       index (heap st' r) = index (heap two_lines r) + 1"
    "calls st' = calls two_lines @ [InsertLine (- 1) (sanitize (content (heap two_lines 2)))]"
    by blast
  from st'(2) have l: "list st' = [Some 0, Some 2, Some 1]" by (simp add: two_lines_list)
  have mem: "Some 0 \<in> set (list two_lines)" "Some 1 \<in> set (list two_lines)"
    by (simp_all add: two_lines_list)
  from st'(4) mem(1) have "index (heap st' 0) = index (heap two_lines 0) + 1" by blast
  with two_lines_fields(1) have i0: "index (heap st' 0) = 1" by simp
  from st'(4) mem(2) have "index (heap st' 1) = index (heap two_lines 1) + 1" by blast
  with two_lines_fields(2) have i1: "index (heap st' 1) = 2" by simp
  from st'(5) have c: "calls st' = calls two_lines @ [InsertLine (- 1) []]"
    by (simp add: two_lines_fields)
  from st'(1,3) l i0 i1 c
  have "\<exists>st'. insertAfter 2 (- 2) two_lines = Inr st' \<and>
      list st' = [Some 0, Some 2, Some 1] \<and>
      index (heap st' 0) = 1 \<and> index (heap st' 2) = 0 \<and> index (heap st' 1) = 2 \<and>
      calls st' = calls two_lines @ [InsertLine (- 1) []]"
    by (intro exI[of _ st'] conjI)
  with a show ?thesis by (rule conjI)
qed

text \<open>
  C4, amended: \<^verbatim>\<open>insertAfter\<close> does not check \<open>afterIndex\<close>. Let the list have \<open>N\<close>
  entries.

  With \<open>N \<le> afterIndex < 2\<^sup>3\<^sup>2 - 1\<close> (here \<open>afterIndex = N + n\<close>) the call returns: the
  list is extended by \<open>n\<close> holes and the line, which is at position \<open>afterIndex\<close> (the
  last one) with index \<open>afterIndex + 1\<close>; \<^verbatim>\<open>box.insertLine(afterIndex + 1, ...)\<close> is
  called; nothing else changes.
  With \<open>afterIndex = 2\<^sup>3\<^sup>2 - 1\<close>, on a list that is not full, the call throws a RangeError
  and leaves the list filled up with holes to the length \<open>2\<^sup>3\<^sup>2 - 1\<close>, the line not in
  it. With \<open>afterIndex > 2\<^sup>3\<^sup>2 - 1\<close> (and more than \<open>N\<close>) the call throws a RangeError and
  has changed nothing: the one case in which the call is rejected before anything is
  done.

  On a list whose lines have their positions as indices and with a line that is not in
  the list: with \<open>afterIndex = -1\<close> the call returns, the line is put at the front with
  index \<open>0\<close>, the box row \<open>0\<close> is inserted, and afterwards every line has its position as
  index; with \<open>afterIndex = -2\<close> the call returns, the line is put before the last
  line of the list, it ends with index \<open>0\<close>, the index of every line that was in the
  list is increased by one, and \<^verbatim>\<open>box.insertLine(-1, ...)\<close> is called.

  With \<open>afterIndex \<le> -3\<close> the call throws a TypeError, in the loop that shifts the
  indices: the line has then been put into the list, at position \<open>N + afterIndex + 1\<close>
  (at the front if that is negative), and has been given the index \<open>afterIndex + 1\<close>; no
  row of the box is inserted.
\<close>

theorem insertAfter_unchecked:
  "(int (length (list st)) + int n < MAX_LENGTH \<longrightarrow>
      insertAfter ln (int (length (list st)) + int n) st =
        Inr (st\<lparr>list := list st @ replicate n None @ [Some ln],
                heap := set_index ln (int (length (list st)) + int n + 1) (heap st),
                calls := calls st @
                  [InsertLine (int (length (list st)) + int n + 1)
                     (sanitize (content (heap st ln)))]\<rparr>)) \<and>
   (int (length (list st)) < MAX_LENGTH \<longrightarrow>
      insertAfter ln MAX_LENGTH st =
        Inl (RangeError,
             st\<lparr>list := list st @ replicate (nat MAX_LENGTH - length (list st)) None\<rparr>)) \<and>
   (MAX_LENGTH < j \<and> int (length (list st)) < j \<longrightarrow>
      insertAfter ln j st = Inl (RangeError, st)) \<and>
   (index_inv st \<and> Some ln \<notin> set (list st) \<longrightarrow>
      (\<exists>st'. insertAfter ln (- 1) st = Inr st' \<and> list st' = Some ln # list st \<and>
         index (heap st' ln) = 0 \<and>
         calls st' = calls st @ [InsertLine 0 (sanitize (content (heap st ln)))] \<and>
         index_inv st') \<and>
      (\<exists>st'. insertAfter ln (- 2) st = Inr st' \<and>
         list st' = take (length (list st) - 1) (list st) @ Some ln #
                    drop (length (list st) - 1) (list st) \<and>
         index (heap st' ln) = 0 \<and>
         (\<forall>r. Some r \<in> set (list st) \<longrightarrow> index (heap st' r) = index (heap st r) + 1) \<and>
         calls st' = calls st @ [InsertLine (- 1) (sanitize (content (heap st ln)))])) \<and>
   (k \<le> - 3 \<longrightarrow>
      insertAfter ln k st =
        Inl (TypeError,
             st\<lparr>list := take (nat (int (length (list st)) + k + 1)) (list st) @ Some ln #
                         drop (nat (int (length (list st)) + k + 1)) (list st),
                heap := set_index ln (k + 1) (heap st)\<rparr>))"
proof (intro conjI impI)
  assume "int (length (list st)) + int n < MAX_LENGTH"
  then show "insertAfter ln (int (length (list st)) + int n) st =
        Inr (st\<lparr>list := list st @ replicate n None @ [Some ln],
                heap := set_index ln (int (length (list st)) + int n + 1) (heap st),
                calls := calls st @
                  [InsertLine (int (length (list st)) + int n + 1)
                     (sanitize (content (heap st ln)))]\<rparr>)"
    by (rule insertAfter_past_end)
next
  assume "int (length (list st)) < MAX_LENGTH"
  then show "insertAfter ln MAX_LENGTH st =
        Inl (RangeError,
             st\<lparr>list := list st @ replicate (nat MAX_LENGTH - length (list st)) None\<rparr>)"
    by (rule insertAfter_at_max)
next
  assume "MAX_LENGTH < j \<and> int (length (list st)) < j"
  then show "insertAfter ln j st = Inl (RangeError, st)"
    by (simp add: insertAfter_beyond_max)
next
  assume "index_inv st \<and> Some ln \<notin> set (list st)"
  then have a: "index_inv st" "Some ln \<notin> set (list st)" by simp_all
  have b: "- 1 \<le> (- 1 :: int)" "- 1 < int (length (list st))" by simp_all
  from insertAfter_valid[OF a b]
  show "\<exists>st'. insertAfter ln (- 1) st = Inr st' \<and> list st' = Some ln # list st \<and>
         index (heap st' ln) = 0 \<and>
         calls st' = calls st @ [InsertLine 0 (sanitize (content (heap st ln)))] \<and>
         index_inv st'"
    by auto
next
  assume "index_inv st \<and> Some ln \<notin> set (list st)"
  then have a: "index_inv st" "Some ln \<notin> set (list st)" by simp_all
  from a show "\<exists>st'. insertAfter ln (- 2) st = Inr st' \<and>
         list st' = take (length (list st) - 1) (list st) @ Some ln #
                    drop (length (list st) - 1) (list st) \<and>
         index (heap st' ln) = 0 \<and>
         (\<forall>r. Some r \<in> set (list st) \<longrightarrow> index (heap st' r) = index (heap st r) + 1) \<and>
         calls st' = calls st @ [InsertLine (- 1) (sanitize (content (heap st ln)))]"
    by (rule insertAfter_before_last)
next
  assume "k \<le> - 3"
  then show "insertAfter ln k st =
        Inl (TypeError,
             st\<lparr>list := take (nat (int (length (list st)) + k + 1)) (list st) @ Some ln #
                         drop (nat (int (length (list st)) + k + 1)) (list st),
                heap := set_index ln (k + 1) (heap st)\<rparr>)"
    by (rule insertAfter_far_below)
qed
theorem insertAfter_unchecked_witness:
  "index_inv two_lines \<and> Some 2 \<notin> set (list two_lines) \<and>
   int (length (list two_lines)) + int 3 < MAX_LENGTH \<and>
   int (length (list two_lines)) < MAX_LENGTH \<and>
   MAX_LENGTH < 4294967296 \<and> int (length (list two_lines)) < 4294967296 \<and>
   (- 3 :: int) \<le> - 3 \<and>
   (\<exists>st'. insertAfter 2 5 two_lines = Inr st' \<and>
      list st' = [Some 0, Some 1, None, None, None, Some 2] \<and> index (heap st' 2) = 6 \<and>
      calls st' = calls two_lines @ [InsertLine 6 []]) \<and>
   (\<exists>st'. insertAfter 2 MAX_LENGTH two_lines = Inl (RangeError, st') \<and>
      length (list st') = 4294967295 \<and> Some 2 \<notin> set (list st')) \<and>
   insertAfter 2 4294967296 two_lines = Inl (RangeError, two_lines) \<and>
   (\<exists>st'. insertAfter 2 (- 1) two_lines = Inr st' \<and> list st' = [Some 2, Some 0, Some 1] \<and>
      index (heap st' 2) = 0 \<and> index_inv st') \<and>
   (\<exists>st'. insertAfter 2 (- 2) two_lines = Inr st' \<and> list st' = [Some 0, Some 2, Some 1] \<and>
      index (heap st' 2) = 0) \<and>
   (\<exists>st'. insertAfter 2 (- 3) two_lines = Inl (TypeError, st') \<and>
      list st' = [Some 2, Some 0, Some 1] \<and> index (heap st' 2) = - 2 \<and>
      calls st' = calls two_lines)"
proof -
  have a: "index_inv two_lines" by (rule two_lines_inv)
  have b: "Some 2 \<notin> set (list two_lines)" by (simp add: two_lines_list)
  have c: "int (length (list two_lines)) + int 3 < MAX_LENGTH"
    "int (length (list two_lines)) < MAX_LENGTH"
    "MAX_LENGTH < 4294967296" "int (length (list two_lines)) < 4294967296"
    by (simp_all add: two_lines_list MAX_LENGTH_def)
  note t = insertAfter_unchecked[where st = two_lines and n = 3 and ln = 2
      and j = 4294967296 and k = "- 3"]
  from t c(1) have "insertAfter 2 (int (length (list two_lines)) + int 3) two_lines =
      Inr (two_lines\<lparr>list := list two_lines @ replicate 3 None @ [Some 2],
             heap := set_index 2 (int (length (list two_lines)) + int 3 + 1) (heap two_lines),
             calls := calls two_lines @
               [InsertLine (int (length (list two_lines)) + int 3 + 1)
                  (sanitize (content (heap two_lines 2)))]\<rparr>)"
    by blast
  then have c1: "\<exists>st'. insertAfter 2 5 two_lines = Inr st' \<and>
      list st' = [Some 0, Some 1, None, None, None, Some 2] \<and> index (heap st' 2) = 6 \<and>
      calls st' = calls two_lines @ [InsertLine 6 []]"
    by (simp add: two_lines_list two_lines_fields set_index_def numeral_3_eq_3)
  from t c(2) have "insertAfter 2 MAX_LENGTH two_lines =
      Inl (RangeError, two_lines\<lparr>list := list two_lines @
             replicate (nat MAX_LENGTH - length (list two_lines)) None\<rparr>)"
    by blast
  then have c2: "\<exists>st'. insertAfter 2 MAX_LENGTH two_lines = Inl (RangeError, st') \<and>
      length (list st') = 4294967295 \<and> Some 2 \<notin> set (list st')"
    by (simp add: two_lines_list) (simp add: MAX_LENGTH_def)
  from t c(3,4) have c3: "insertAfter 2 4294967296 two_lines = Inl (RangeError, two_lines)"
    by blast
  from t a b have c4: "\<exists>st'. insertAfter 2 (- 1) two_lines = Inr st' \<and>
      list st' = [Some 2, Some 0, Some 1] \<and> index (heap st' 2) = 0 \<and> index_inv st'"
    by (auto simp: two_lines_list)
  from t a b have c5: "\<exists>st'. insertAfter 2 (- 2) two_lines = Inr st' \<and>
      list st' = [Some 0, Some 2, Some 1] \<and> index (heap st' 2) = 0"
    by (auto simp: two_lines_list)
  from t have "insertAfter 2 (- 3) two_lines =
        Inl (TypeError,
             two_lines\<lparr>list := take (nat (int (length (list two_lines)) + - 3 + 1))
                           (list two_lines) @ Some 2 #
                         drop (nat (int (length (list two_lines)) + - 3 + 1)) (list two_lines),
                heap := set_index 2 (- 3 + 1) (heap two_lines)\<rparr>)"
    by simp
  then have c6: "\<exists>st'. insertAfter 2 (- 3) two_lines = Inl (TypeError, st') \<and>
      list st' = [Some 2, Some 0, Some 1] \<and> index (heap st' 2) = - 2 \<and>
      calls st' = calls two_lines"
    by (simp add: two_lines_list set_index_def)
  from a b c c1 c2 c3 c4 c5 c6 show ?thesis by (intro conjI) simp_all
qed
section \<open>C5: clearScreen\<close>

text \<open>
  C5. \<^verbatim>\<open>clearScreen\<close> empties the list, sets the content of the box to the empty
  string and renders. It unselects the line that the property \<^verbatim>\<open>selectedLine\<close> of the
  array \<^verbatim>\<open>this.list\<close> holds; the selected line is kept in \<^verbatim>\<open>this.selectedLine\<close>,
  which is not looked at. Here line \<open>0\<close> is the selected line: after \<^verbatim>\<open>clearScreen\<close>
  its flag is still set, and it still is the \<^verbatim>\<open>selectedLine\<close> of the list object.
\<close>

theorem clearScreen_keeps_selected_flag:
  "clearScreen
     \<lparr>list = [Some 0], list_selectedLine = None, selectedLine = Some 0,
      heap = (\<lambda>_. \<lparr>index = 0, content = [], selected = True\<rparr>),
      scrollDown = False, calls = [], immediates = []\<rparr> =
   \<lparr>list = [], list_selectedLine = None, selectedLine = Some 0,
    heap = (\<lambda>_. \<lparr>index = 0, content = [], selected = True\<rparr>),
    scrollDown = False, calls = [SetContent [], Render], immediates = []\<rparr>"
  by (simp add: clearScreen_def render_def)

section \<open>C6: scroll\<close>

text \<open>
  C6. The viewport is at the top edge of ten rows of content, position \<open>0\<close>, where the
  scroll percentage is \<open>0\<close>. \<^verbatim>\<open>scroll(-1)\<close> scrolls the box up by one line, which does
  not move it, the viewport being at the top already. The percentage is \<open>0\<close> before and
  after, so the branch "Undo scroll if nothing changed" is taken: the box is scrolled
  by \<open>0 - (-1) = 1\<close> line, and this time it does move. After \<^verbatim>\<open>scroll(-1)\<close> the
  viewport is at position \<open>1\<close>: its position is not restored, the viewport has gone
  one line down on a call to scroll up.
\<close>

theorem scroll_up_at_top_moves_down:
  "vp_getScrollPerc \<lparr>rows = 10, pos = 0\<rparr> = 0 \<and>
   vp_scroll (- 1) \<lparr>rows = 10, pos = 0\<rparr> = \<lparr>rows = 10, pos = 0\<rparr> \<and>
   vp_getScrollPerc (vp_scroll (- 1) \<lparr>rows = 10, pos = 0\<rparr>) = 0 \<and>
   scroll vp_getScrollPerc vp_scroll (Some (- 1)) \<lparr>rows = 10, pos = 0\<rparr> =
     \<lparr>rows = 10, pos = 1\<rparr>"
  by (simp add: scroll_def vp_getScrollPerc_def vp_scroll_def)

section \<open>The matcher\<close>

lemma match_sound:
  "match_atoms ps s = Some (caps, rest) \<Longrightarrow> s = fill ps caps @ rest \<and> caps_in ps caps"
  "lazy_star k ps acc s = Some (caps, rest) \<Longrightarrow>
     \<exists>c cs. caps = (rev acc @ c) # cs \<and> s = c @ fill ps cs @ rest \<and>
       list_all (in_cls k) c \<and> caps_in ps cs"
  "greedy_star k ps acc s = Some (caps, rest) \<Longrightarrow>
     \<exists>c cs. caps = (rev acc @ c) # cs \<and> s = c @ fill ps cs @ rest \<and>
       list_all (in_cls k) c \<and> caps_in ps cs"
proof (induction ps s and k ps acc s and k ps acc s arbitrary: caps rest and caps rest and caps rest
    rule: match_atoms_lazy_star_greedy_star.induct)
  case (1 s)
  then show ?case by simp
next
  case (2 c ps s)
  then show ?case by (cases s) (auto split: if_splits)
next
  case (3 k ps s)
  from "3.prems" have "lazy_star k ps [] s = Some (caps, rest)" by simp
  from "3.IH"[OF this] show ?case by auto
next
  case (4 k ps s)
  from "4.prems" have "greedy_star k ps [] s = Some (caps, rest)" by simp
  from "4.IH"[OF this] show ?case by auto
next
  case (5 k ps acc s)
  show ?case
  proof (cases "match_atoms ps s")
    case (Some m)
    obtain cs r where m: "m = (cs, r)" by (cases m)
    with Some "5.prems" have eq: "caps = rev acc # cs" "rest = r"
      by (simp_all add: lazy_star.simps)
    from "5.IH"(1)[of cs r] Some m have "s = fill ps cs @ r \<and> caps_in ps cs" by simp
    with eq show ?thesis by simp
  next
    case None
    show ?thesis
    proof (cases s)
      case Nil
      with None "5.prems" show ?thesis by (simp add: lazy_star.simps)
    next
      case (Cons x xs)
      with None "5.prems" have x: "in_cls k x"
        and run: "lazy_star k ps (x # acc) xs = Some (caps, rest)"
        by (simp_all add: lazy_star.simps split: if_splits)
      from "5.IH"(2)[OF None Cons x run] obtain c cs where
        "caps = (rev (x # acc) @ c) # cs" "xs = c @ fill ps cs @ rest"
        "list_all (in_cls k) c" "caps_in ps cs" by blast
      with x Cons have "caps = (rev acc @ (x # c)) # cs \<and> s = (x # c) @ fill ps cs @ rest \<and>
          list_all (in_cls k) (x # c) \<and> caps_in ps cs" by simp
      then show ?thesis by blast
    qed
  qed
next
  case (6 k ps acc s)
  let ?deeper = "case s of [] \<Rightarrow> None
      | x # xs \<Rightarrow> if in_cls k x then greedy_star k ps (x # acc) xs else None"
  show ?case
  proof (cases ?deeper)
    case (Some r)
    with "6.prems" have r: "r = (caps, rest)" by (simp add: greedy_star.simps)
    from Some obtain x xs where s: "s = x # xs" and x: "in_cls k x"
      and run: "greedy_star k ps (x # acc) xs = Some r"
      by (cases s) (auto split: if_splits)
    from "6.IH"(1)[OF s x, of caps rest] run r obtain c cs where
      "caps = (rev (x # acc) @ c) # cs" "xs = c @ fill ps cs @ rest"
      "list_all (in_cls k) c" "caps_in ps cs" by blast
    with x s have "caps = (rev acc @ (x # c)) # cs \<and> s = (x # c) @ fill ps cs @ rest \<and>
        list_all (in_cls k) (x # c) \<and> caps_in ps cs" by simp
    then show ?thesis by blast
  next
    case None
    with "6.prems" obtain cs r where m: "match_atoms ps s = Some (cs, r)"
      and eq: "caps = rev acc # cs" "rest = r"
      by (auto simp: greedy_star.simps split: option.splits)
    from "6.IH"(2)[OF None m] have "s = fill ps cs @ r \<and> caps_in ps cs" .
    with eq show ?thesis by simp
  qed
qed

lemma match_array_whole:
  "s = t @ rest \<Longrightarrow> match_array s (caps, rest) = map Some (t # caps)"
  by (simp add: match_array_def)

lemma strict_match:
  assumes "match_atoms strict_pattern s = Some (caps, rest)"
  shows "\<exists>f p l c. caps = [f, p, l, c] \<and>
    s = 0x20 # f @ [0x20, 0x28] @ p @ [0x3A] @ l @ [0x3A] @ c @ [0x29] @ rest \<and>
    list_all (in_cls Digit) l \<and> list_all (in_cls Digit) c"
  using match_sound(1)[OF assms]
  by (auto simp: strict_pattern_def split: list.splits)

lemma loose_match:
  assumes "match_atoms loose_pattern s = Some (caps, rest)"
  shows "\<exists>p l c. caps = [p, l, c] \<and> s = p @ [0x3A] @ l @ [0x3A] @ c @ rest \<and>
    list_all (in_cls Digit) l \<and> list_all (in_cls Digit) c"
  using match_sound(1)[OF assms]
  by (auto simp: loose_pattern_def split: list.splits)

lemma exec_Some:
  "exec ps s = Some arr \<Longrightarrow>
   \<exists>pre t caps rest. s = pre @ t \<and> match_atoms ps t = Some (caps, rest) \<and>
     arr = match_array t (caps, rest)"
proof (induction s)
  case Nil
  then show ?case by (cases "match_atoms ps []") auto
next
  case (Cons x xs)
  show ?case
  proof (cases "match_atoms ps (x # xs)")
    case None
    with Cons.prems have "exec ps xs = Some arr" by simp
    from Cons.IH[OF this] obtain pre t caps rest where
      "xs = pre @ t" "match_atoms ps t = Some (caps, rest)" "arr = match_array t (caps, rest)"
      by blast
    then have "x # xs = (x # pre) @ t \<and> match_atoms ps t = Some (caps, rest) \<and>
        arr = match_array t (caps, rest)" by simp
    then show ?thesis by blast
  next
    case (Some m)
    obtain caps rest where m: "m = (caps, rest)" by (cases m)
    with Some Cons.prems have "x # xs = [] @ (x # xs) \<and>
        match_atoms ps (x # xs) = Some (caps, rest) \<and> arr = match_array (x # xs) (caps, rest)"
      by simp
    then show ?thesis by blast
  qed
qed

section \<open>split and pop\<close>

lemma split_length: "length (split sep s) = Suc (count_list s sep)"
  by (induction s) (auto split: list.splits)

lemma split_not_Nil: "split sep s \<noteq> []"
  using split_length[of sep s] by auto

lemma split_single: "sep \<notin> set s \<Longrightarrow> split sep s = [s]"
proof (induction s)
  case Nil
  then show ?case by simp
next
  case (Cons x xs)
  then show ?case by (auto split: list.splits)
qed

lemma last_split: "last (split sep s) = rev (takeWhile (\<lambda>x. x \<noteq> sep) (rev s))"
proof (induction s)
  case Nil
  then show ?case by simp
next
  case (Cons x xs)
  show ?case
  proof (cases "sep \<in> set xs")
    case True
    then have tw: "takeWhile (\<lambda>x. x \<noteq> sep) (rev xs @ [x]) = takeWhile (\<lambda>x. x \<noteq> sep) (rev xs)"
      by (intro takeWhile_append1[of sep]) simp_all
    from True have "count_list xs sep \<noteq> 0" by (simp add: count_list_0_iff)
    then have "length (split sep xs) \<ge> 2" by (simp add: split_length)
    then obtain p q qs where sp: "split sep xs = p # q # qs"
      by (cases "split sep xs"; cases "tl (split sep xs)") auto
    with Cons.IH tw show ?thesis by (simp add: split_not_Nil)
  next
    case False
    then have sp: "split sep xs = [xs]" by (rule split_single)
    from False have all: "\<And>y. y \<in> set (rev xs) \<Longrightarrow> y \<noteq> sep" by auto
    have tw: "takeWhile (\<lambda>x. x \<noteq> sep) (rev xs @ [x]) =
        rev xs @ takeWhile (\<lambda>x. x \<noteq> sep) [x]"
      by (rule takeWhile_append2) (rule all)
    show ?thesis by (simp add: sp tw)
  qed
qed

lemma pop_split: "pop (split sep s) = Some (rev (takeWhile (\<lambda>x. x \<noteq> sep) (rev s)))"
  by (simp add: pop_def split_not_Nil last_split)

section \<open>C9: extractLineInfo\<close>

lemma extractLineInfo_of_result:
  "line_result (clean_line s) = [w, n, Some p, l, c] \<Longrightarrow>
   extractLineInfo s =
     Inr \<lparr>name = n, path = Some p,
          file_ = Some (rev (takeWhile (\<lambda>x. x \<noteq> 0x2F) (rev p))), line = l, char = c\<rparr>"
  by (simp add: extractLineInfo_def elem_def pop_split)

lemma unknown_file: "rev (takeWhile (\<lambda>x. x \<noteq> 0x2F) (rev (js ''unknown''))) = js ''unknown''"
  by (simp add: js_def)

text \<open>
  C9, as the code has it. For every string, \<^verbatim>\<open>extractLineInfo\<close> returns an object and
  throws nothing. With \<open>clean\<close> the line after its first \<^verbatim>\<open>at\<close>, one of three cases
  holds, in this order.
  The strict pattern matches at the start of \<open>clean\<close>, which then reads
  \<^verbatim>\<open> f (p:l:c)\<close> with digits \<open>l\<close> and \<open>c\<close> and any text after it: the fields are the
  function \<open>f\<close>, the path \<open>p\<close>, the line \<open>l\<close> and the column \<open>c\<close>.
  Or the strict pattern does not match and the loose one does, somewhere in \<open>clean\<close>,
  which then holds \<^verbatim>\<open>p:l:c\<close>: the name is \<^verbatim>\<open>anonymous\<close>, the other fields are \<open>p\<close>,
  \<open>l\<close> and \<open>c\<close>.
  Or neither matches: the name is \<^verbatim>\<open>anonymous\<close>, and the path, the file, the line and
  the column are \<^verbatim>\<open>unknown\<close>.
  In each case the file is the part of the path after its last slash.
\<close>

theorem extractLineInfo_fallbacks:
  "(\<exists>r. extractLineInfo s = Inr r) \<and>
   ((\<exists>f p l c rest.
       clean_line s = 0x20 # f @ [0x20, 0x28] @ p @ [0x3A] @ l @ [0x3A] @ c @ [0x29] @ rest \<and>
       list_all (in_cls Digit) l \<and> list_all (in_cls Digit) c \<and>
       exec_anchored strict_pattern (clean_line s) =
         Some [Some (0x20 # f @ [0x20, 0x28] @ p @ [0x3A] @ l @ [0x3A] @ c @ [0x29]),
               Some f, Some p, Some l, Some c] \<and>
       extractLineInfo s =
         Inr \<lparr>name = Some f, path = Some p,
              file_ = Some (rev (takeWhile (\<lambda>x. x \<noteq> 0x2F) (rev p))),
              line = Some l, char = Some c\<rparr>) \<or>
    (exec_anchored strict_pattern (clean_line s) = None \<and>
     (\<exists>pre p l c rest.
       clean_line s = pre @ p @ [0x3A] @ l @ [0x3A] @ c @ rest \<and>
       list_all (in_cls Digit) l \<and> list_all (in_cls Digit) c \<and>
       exec loose_pattern (clean_line s) =
         Some [Some (p @ [0x3A] @ l @ [0x3A] @ c), Some p, Some l, Some c] \<and>
       extractLineInfo s =
         Inr \<lparr>name = Some (js ''anonymous''), path = Some p,
              file_ = Some (rev (takeWhile (\<lambda>x. x \<noteq> 0x2F) (rev p))),
              line = Some l, char = Some c\<rparr>)) \<or>
    (exec_anchored strict_pattern (clean_line s) = None \<and>
     exec loose_pattern (clean_line s) = None \<and>
     extractLineInfo s =
       Inr \<lparr>name = Some (js ''anonymous''), path = Some (js ''unknown''),
            file_ = Some (js ''unknown''), line = Some (js ''unknown''),
            char = Some (js ''unknown'')\<rparr>))"
proof -
  let ?cl = "clean_line s"
  let ?A = "\<exists>f p l c rest.
       ?cl = 0x20 # f @ [0x20, 0x28] @ p @ [0x3A] @ l @ [0x3A] @ c @ [0x29] @ rest \<and>
       list_all (in_cls Digit) l \<and> list_all (in_cls Digit) c \<and>
       exec_anchored strict_pattern ?cl =
         Some [Some (0x20 # f @ [0x20, 0x28] @ p @ [0x3A] @ l @ [0x3A] @ c @ [0x29]),
               Some f, Some p, Some l, Some c] \<and>
       extractLineInfo s =
         Inr \<lparr>name = Some f, path = Some p,
              file_ = Some (rev (takeWhile (\<lambda>x. x \<noteq> 0x2F) (rev p))),
              line = Some l, char = Some c\<rparr>"
  let ?B = "exec_anchored strict_pattern ?cl = None \<and>
     (\<exists>pre p l c rest.
       ?cl = pre @ p @ [0x3A] @ l @ [0x3A] @ c @ rest \<and>
       list_all (in_cls Digit) l \<and> list_all (in_cls Digit) c \<and>
       exec loose_pattern ?cl =
         Some [Some (p @ [0x3A] @ l @ [0x3A] @ c), Some p, Some l, Some c] \<and>
       extractLineInfo s =
         Inr \<lparr>name = Some (js ''anonymous''), path = Some p,
              file_ = Some (rev (takeWhile (\<lambda>x. x \<noteq> 0x2F) (rev p))),
              line = Some l, char = Some c\<rparr>)"
  let ?C = "exec_anchored strict_pattern ?cl = None \<and>
     exec loose_pattern ?cl = None \<and>
     extractLineInfo s =
       Inr \<lparr>name = Some (js ''anonymous''), path = Some (js ''unknown''),
            file_ = Some (js ''unknown''), line = Some (js ''unknown''),
            char = Some (js ''unknown'')\<rparr>"
  have cases: "?A \<or> ?B \<or> ?C"
  proof (cases "exec_anchored strict_pattern ?cl")
    case (Some arr)
    then obtain caps rest where m: "match_atoms strict_pattern ?cl = Some (caps, rest)"
      and arr: "arr = match_array ?cl (caps, rest)"
      by (auto simp: exec_anchored_def)
    from strict_match[OF m] obtain f p l c where caps: "caps = [f, p, l, c]"
      and cl: "?cl = 0x20 # f @ [0x20, 0x28] @ p @ [0x3A] @ l @ [0x3A] @ c @ [0x29] @ rest"
      and dig: "list_all (in_cls Digit) l" "list_all (in_cls Digit) c"
      by blast
    let ?w = "0x20 # f @ [0x20, 0x28] @ p @ [0x3A] @ l @ [0x3A] @ c @ [0x29]"
    from cl have "?cl = ?w @ rest" by simp
    from match_array_whole[OF this, of caps] arr caps
    have arr': "arr = [Some ?w, Some f, Some p, Some l, Some c]" by simp
    with Some have ex: "exec_anchored strict_pattern ?cl =
        Some [Some ?w, Some f, Some p, Some l, Some c]" by simp
    then have "line_result ?cl = [Some ?w, Some f, Some p, Some l, Some c]"
      by (simp add: line_result_def)
    from extractLineInfo_of_result[OF this] cl dig ex have ?A by blast
    then show ?thesis by blast
  next
    case None
    show ?thesis
    proof (cases "exec loose_pattern ?cl")
      case (Some arr)
      from exec_Some[OF Some] obtain pre t caps rest where t: "?cl = pre @ t"
        and m: "match_atoms loose_pattern t = Some (caps, rest)"
        and arr: "arr = match_array t (caps, rest)"
        by blast
      from loose_match[OF m] obtain p l c where caps: "caps = [p, l, c]"
        and tt: "t = p @ [0x3A] @ l @ [0x3A] @ c @ rest"
        and dig: "list_all (in_cls Digit) l" "list_all (in_cls Digit) c"
        by blast
      let ?w = "p @ [0x3A] @ l @ [0x3A] @ c"
      from tt have "t = ?w @ rest" by simp
      from match_array_whole[OF this, of caps] arr caps
      have arr': "arr = [Some ?w, Some p, Some l, Some c]" by simp
      with Some have ex: "exec loose_pattern ?cl = Some [Some ?w, Some p, Some l, Some c]"
        by simp
      with None have "line_result ?cl =
          [Some [], Some (js ''anonymous''), Some p, Some l, Some c]"
        by (simp add: line_result_def elem_def)
      from extractLineInfo_of_result[OF this]
      have res: "extractLineInfo s =
         Inr \<lparr>name = Some (js ''anonymous''), path = Some p,
              file_ = Some (rev (takeWhile (\<lambda>x. x \<noteq> 0x2F) (rev p))),
              line = Some l, char = Some c\<rparr>" .
      from t tt have "?cl = pre @ p @ [0x3A] @ l @ [0x3A] @ c @ rest" by simp
      with dig ex res None have ?B by blast
      then show ?thesis by blast
    next
      case None': None
      with None have "line_result ?cl =
          [Some [], Some (js ''anonymous''), Some (js ''unknown''), Some (js ''unknown''),
           Some (js ''unknown'')]"
        by (simp add: line_result_def elem_def)
      from extractLineInfo_of_result[OF this] None None' have ?C
        by (simp only: unknown_file)
      then show ?thesis by blast
    qed
  qed
  then have "\<exists>r. extractLineInfo s = Inr r" by auto
  with cases show ?thesis by blast
qed

theorem extractLineInfo_fallbacks_witness:
  "extractLineInfo (js ''    at foo (/a/b/c.js:10:5)'') =
     Inr \<lparr>name = Some (js ''foo''), path = Some (js ''/a/b/c.js''),
          file_ = Some (js ''c.js''), line = Some (js ''10''), char = Some (js ''5'')\<rparr> \<and>
   extractLineInfo (js ''    at /a/b/c.js:10:5'') =
     Inr \<lparr>name = Some (js ''anonymous''), path = Some (js '' /a/b/c.js''),
          file_ = Some (js ''c.js''), line = Some (js ''10''), char = Some (js ''5'')\<rparr> \<and>
   (\<exists>r. extractLineInfo (js ''    at foo (/a/b/c.js:10:5)'') = Inr r)"
proof -
  have a: "extractLineInfo (js ''    at foo (/a/b/c.js:10:5)'') =
     Inr \<lparr>name = Some (js ''foo''), path = Some (js ''/a/b/c.js''),
          file_ = Some (js ''c.js''), line = Some (js ''10''), char = Some (js ''5'')\<rparr>"
    by code_simp
  have b: "extractLineInfo (js ''    at /a/b/c.js:10:5'') =
     Inr \<lparr>name = Some (js ''anonymous''), path = Some (js '' /a/b/c.js''),
          file_ = Some (js ''c.js''), line = Some (js ''10''), char = Some (js ''5'')\<rparr>"
    by code_simp
  from extractLineInfo_fallbacks[of "js ''    at foo (/a/b/c.js:10:5)''"]
  have "\<exists>r. extractLineInfo (js ''    at foo (/a/b/c.js:10:5)'') = Inr r" by blast
  with a b show ?thesis by (intro conjI)
qed

text \<open>
  C9 as stated fails in its last case: for a line that neither pattern matches, not all
  fields are the placeholder. The name is \<^verbatim>\<open>anonymous\<close>, as in the loose case.
\<close>

theorem extractLineInfo_placeholder_counterexample:
  "extractLineInfo (js ''foo'') =
     Inr \<lparr>name = Some (js ''anonymous''), path = Some (js ''unknown''),
          file_ = Some (js ''unknown''), line = Some (js ''unknown''),
          char = Some (js ''unknown'')\<rparr> \<and>
   js ''anonymous'' \<noteq> js ''unknown''"
  by code_simp

end
